theory Spec2Isabelle
  imports Main "HOL-Library.Word"
begin

unbundle bit_operations_syntax

section \<open>Bytes, errors and the byte source\<close>

type_synonym byte = "8 word"
type_synonym uint16 = "16 word"
type_synonym uint32 = "32 word"

text \<open>
  The errors a call can end with: the two error types of \<^verbatim>\<open>reader.go\<close>, the two
  end-of-input values of Go's \<^verbatim>\<open>io\<close> package, and a run-time panic (an index or a slice
  bound out of range), tagged with the array it was raised on.
\<close>

datatype error =
    FormatError string
  | UnsupportedError string
  | ErrUnexpectedEOF
  | EOF
  | Panic string

text \<open>
  The reader \<^verbatim>\<open>d.r\<close> is a finite sequence of bytes followed by end-of-stream.
  \<^verbatim>\<open>io.ReadFull(r, buf)\<close> with \<^verbatim>\<open>len(buf) = n\<close> fills the buffer, or fails with
  \<^verbatim>\<open>io.EOF\<close> when no byte at all was read and with \<^verbatim>\<open>io.ErrUnexpectedEOF\<close>
  when some but not all were. A buffer of length 0 is always filled.
\<close>

definition ReadFull :: "nat \<Rightarrow> byte list \<Rightarrow> error + (byte list \<times> byte list)" where
  "ReadFull n r =
     (if n \<le> length r then Inr (take n r, drop n r)
      else if r = [] then Inl EOF
      else Inl ErrUnexpectedEOF)"

definition readUint16 :: "byte list \<Rightarrow> uint16" where
  "readUint16 b = ucast (b ! 0) OR push_bit 8 (ucast (b ! 1))"

definition readUint32 :: "byte list \<Rightarrow> uint32" where
  "readUint32 b =
     ucast (b ! 0) OR push_bit 8 (ucast (b ! 1)) OR push_bit 16 (ucast (b ! 2))
       OR push_bit 24 (ucast (b ! 3))"

text \<open>\<^verbatim>\<open>strconv.FormatUint(n, 10)\<close> and \<^verbatim>\<open>strconv.Itoa\<close> on a number that is not negative.\<close>

definition digit :: "nat \<Rightarrow> char" where
  "digit n = char_of (48 + n)"

fun FormatUint :: "nat \<Rightarrow> string" where
  "FormatUint n = (if n < 10 then [digit n] else FormatUint (n div 10) @ [digit (n mod 10)])"

text \<open>\<^verbatim>\<open>n &^ 3\<close> after adding 3: a row length rounded up to a multiple of 4.\<close>

definition align4 :: "nat \<Rightarrow> nat" where
  "align4 n = nat ((int n + 3) AND NOT 3)"

section \<open>Colours and images (Go's image and image/color packages)\<close>

datatype color =
    RGBAColor byte byte byte byte
  | NRGBAColor byte byte byte byte
  | GrayColor byte

text \<open>
  The method \<^verbatim>\<open>RGBA()\<close> of a colour: the alpha-premultiplied channels on 16 bits,
  as \<^verbatim>\<open>uint32\<close> values.
\<close>

definition dup8 :: "byte \<Rightarrow> uint32" where
  "dup8 c = ucast c OR push_bit 8 (ucast c)"

fun color_RGBA :: "color \<Rightarrow> uint32 \<times> uint32 \<times> uint32 \<times> uint32" where
  "color_RGBA (RGBAColor r g b a) = (dup8 r, dup8 g, dup8 b, dup8 a)"
| "color_RGBA (NRGBAColor r g b a) =
     (dup8 r * ucast a div 0xff, dup8 g * ucast a div 0xff, dup8 b * ucast a div 0xff, dup8 a)"
| "color_RGBA (GrayColor y) = (dup8 y, dup8 y, dup8 y, 0xffff)"

record rectangle =
  MinX :: int
  MinY :: int
  MaxX :: int
  MaxY :: int

definition Rect0 :: "int \<Rightarrow> int \<Rightarrow> rectangle" where
  "Rect0 w h = \<lparr>MinX = 0, MinY = 0, MaxX = w, MaxY = h\<rparr>"

definition Dx :: "rectangle \<Rightarrow> int" where
  "Dx r = MaxX r - MinX r"

definition Dy :: "rectangle \<Rightarrow> int" where
  "Dy r = MaxY r - MinY r"

text \<open>
  The image types the encoder tells apart, with their pixel buffer, their stride and
  their bounds; every other implementation of \<^verbatim>\<open>image.Image\<close> is its bounds and its
  method \<^verbatim>\<open>At\<close>.
\<close>

datatype image =
    Gray (Pix: "byte list") (Stride: nat) (Rect: rectangle)
  | Paletted (Pix: "byte list") (Stride: nat) (Rect: rectangle) (Palette: "color list")
  | RGBA (Pix: "byte list") (Stride: nat) (Rect: rectangle)
  | NRGBA (Pix: "byte list") (Stride: nat) (Rect: rectangle)
  | Other (Rect: rectangle) (At: "int \<Rightarrow> int \<Rightarrow> color")

text \<open>
  \<^verbatim>\<open>image.NewPaletted\<close>, \<^verbatim>\<open>image.NewRGBA\<close> and \<^verbatim>\<open>image.NewNRGBA\<close> on
  \<^verbatim>\<open>image.Rect(0, 0, w, h)\<close>, for a width and a height that are not negative: a zeroed
  buffer of one or four bytes per pixel. The constructor computes the length of the
  buffer first (\<^verbatim>\<open>pixelBufferLength\<close>, with \<^verbatim>\<open>mul3NonNeg\<close> on 64-bit integers) and
  panics when \<open>bytesPerPixel * w\<close> does not fit 64 bits or the length does not fit the
  63 bits of a non-negative \<^verbatim>\<open>int\<close>. An allocation whose length has passed this check
  is taken to succeed: the memory of the machine is not part of the model.
\<close>

definition NewPix :: "string \<Rightarrow> nat \<Rightarrow> nat \<Rightarrow> nat \<Rightarrow> error + byte list" where
  "NewPix imageTypeName bytesPerPixel w h =
     (if 2 ^ 64 \<le> bytesPerPixel * w \<or> 2 ^ 63 \<le> bytesPerPixel * w * h
      then Inl (Panic (''image: New'' @ imageTypeName
                         @ '' Rectangle has huge or negative dimensions''))
      else Inr (replicate (bytesPerPixel * w * h) 0))"

text \<open>Writing the bytes \<open>src\<close> into \<open>dst\<close> from index \<open>off\<close> on: \<^verbatim>\<open>copy(dst[off:], src)\<close>.\<close>

definition blit :: "byte list \<Rightarrow> nat \<Rightarrow> byte list \<Rightarrow> byte list" where
  "blit dst off src = take off dst @ src @ drop (off + length src) dst"

section \<open>The decoder (reader.go)\<close>

definition fileHeaderLen :: nat where
  "fileHeaderLen = 14"

definition infoHeaderLen :: nat where
  "infoHeaderLen = 40"

definition v4InfoHeaderLen :: nat where
  "v4InfoHeaderLen = 108"

definition v5InfoHeaderLen :: nat where
  "v5InfoHeaderLen = 124"

definition biRGB :: uint32 where
  "biRGB = 0"

definition biRLE8 :: uint32 where
  "biRLE8 = 1"

definition biRLE4 :: uint32 where
  "biRLE4 = 2"

definition biBitFields :: uint32 where
  "biBitFields = 3"

text \<open>
  \<^verbatim>\<open>image.Config\<close>'s colour model is a palette or \<^verbatim>\<open>color.RGBAModel\<close>; it is nil
  in a decoder that has not read a header yet.
\<close>

datatype colorModel = NilModel | PaletteModel "color list" | RGBAModel

text \<open>
  The struct \<^verbatim>\<open>decoder\<close> without its reader, which every function below takes and
  returns beside it: the bytes not read yet.
\<close>

record decoder =
  c_ColorModel :: colorModel
  c_Width :: int
  c_Height :: int
  d_bpp :: uint16
  d_topDown :: bool
  d_rgb565 :: bool
  d_noAlpha :: bool
  d_rle :: bool

definition newDecoder :: decoder where
  "newDecoder = \<lparr>c_ColorModel = NilModel, c_Width = 0, c_Height = 0, d_bpp = 0,
     d_topDown = False, d_rgb565 = False, d_noAlpha = False, d_rle = False\<rparr>"

text \<open>The three header reads turn \<^verbatim>\<open>io.EOF\<close> into \<^verbatim>\<open>io.ErrUnexpectedEOF\<close>.\<close>

definition eofToUnexpected :: "error \<Rightarrow> error" where
  "eofToUnexpected err = (if err = EOF then ErrUnexpectedEOF else err)"

text \<open>
  Lines 121 to 153 of \<^verbatim>\<open>DecodeConfig\<close>: the switch on the compression. \<open>b\<close> is the
  part of the 1024-byte buffer read so far (the file header and the DIB header); the
  result is the decoder, the compression left, \<^verbatim>\<open>colorMaskLen\<close> and the reader.
\<close>

definition resolveCompression ::
  "decoder \<Rightarrow> uint32 \<Rightarrow> uint32 \<Rightarrow> byte list \<Rightarrow> byte list
     \<Rightarrow> error + (decoder \<times> uint32 \<times> uint32 \<times> byte list)" where
  "resolveCompression d compression infoLen b r =
     (if compression = biBitFields then
        (case (if infoLen = of_nat infoHeaderLen
               then (case ReadFull (4 * 3) r of
                       Inl err \<Rightarrow> Inl (eofToUnexpected err)
                     | Inr (m, r') \<Rightarrow> Inr (4 * 3, b @ m, r'))
               else Inr (0, b, r)) of
           Inl err \<Rightarrow> Inl err
         | Inr (colorMaskLen, b', r') \<Rightarrow>
             let isRGB565 = (d_bpp d = 16 \<and> readUint32 (drop 54 b') = 0xF800
                   \<and> readUint32 (drop 58 b') = 0x7E0 \<and> readUint32 (drop 62 b') = 0x1F);
                 isRGB555 = (d_bpp d = 16 \<and> readUint32 (drop 54 b') = 0x7C00
                   \<and> readUint32 (drop 58 b') = 0x3E0 \<and> readUint32 (drop 62 b') = 0x1F);
                 isRGB888 = (d_bpp d = 32 \<and> readUint32 (drop 54 b') = 0xFF0000
                   \<and> readUint32 (drop 58 b') = 0xFF00 \<and> readUint32 (drop 62 b') = 0xFF
                   \<and> (infoLen = of_nat infoHeaderLen \<or> readUint32 (drop 66 b') = 0xFF000000));
                 d1 = (if isRGB565 then d\<lparr>d_rgb565 := True\<rparr> else d)
             in if isRGB565 \<or> isRGB555 \<or> isRGB888
                then Inr (if infoLen = of_nat infoHeaderLen then d1\<lparr>d_noAlpha := True\<rparr> else d1,
                          biRGB, colorMaskLen, r')
                else Inr (d1, compression, colorMaskLen, r'))
      else if ((d_bpp d = 4 \<and> compression = biRLE4) \<or> (d_bpp d = 8 \<and> compression = biRLE8))
              \<and> \<not> d_topDown d
      then Inr (d\<lparr>d_rle := True\<rparr>, biRGB, 0, r)
      else Inr (d, compression, 0, r))"

text \<open>
  Lines 157 to 202: the switch on the bit depth. The palette is read into the first
  \<^verbatim>\<open>colors*4\<close> bytes of the 1024-byte buffer (a slice bound beyond it panics), and
  the loop over the \<^verbatim>\<open>colors\<close> entries reads \<^verbatim>\<open>b[4*i+2]\<close> first, which panics at
  \<open>i = 256\<close>.
\<close>

definition readPalette :: "byte list \<Rightarrow> nat \<Rightarrow> color list" where
  "readPalette b n =
     map (\<lambda>i. RGBAColor (b ! (4 * i + 2)) (b ! (4 * i + 1)) (b ! (4 * i + 0)) 0xFF) [0..<n]"

definition configByDepth ::
  "decoder \<Rightarrow> uint32 \<Rightarrow> uint32 \<Rightarrow> uint32 \<Rightarrow> uint32 \<Rightarrow> int \<Rightarrow> int \<Rightarrow> byte list
     \<Rightarrow> error + (decoder \<times> byte list)" where
  "configByDepth d offset infoLen colorMaskLen colors0 width height r =
     (if d_bpp d \<in> {1, 2, 4, 8} then
        (let colors = (if colors0 = 0 then push_bit (unat (d_bpp d)) 1 else colors0)
         in if offset \<noteq> of_nat fileHeaderLen + infoLen + colors * 4
            then Inl (UnsupportedError ''bitmap offset'')
            else if 1024 < unat (colors * 4)
            then Inl (Panic ''b: slice bounds out of range'')
            else (case ReadFull (unat (colors * 4)) r of
                    Inl err \<Rightarrow> Inl err
                  | Inr (pb, r') \<Rightarrow>
                      if 256 < unat colors
                      then Inl (Panic ''b: index out of range'')
                      else Inr (d\<lparr>c_ColorModel := PaletteModel (readPalette pb (unat colors)),
                                  c_Width := width, c_Height := height\<rparr>, r')))
      else if d_bpp d = 16 \<or> d_bpp d = 24 \<or> d_bpp d = 32 then
        (if offset \<noteq> of_nat fileHeaderLen + infoLen + colorMaskLen
         then Inl (UnsupportedError ''bitmap offset'')
         else Inr (d\<lparr>c_ColorModel := RGBAModel, c_Width := width, c_Height := height\<rparr>, r))
      else Inl (UnsupportedError (''bit depth '' @ FormatUint (unat (d_bpp d)))))"

text \<open>Lines 107 to 120 and the two switches, once the whole DIB header is in \<open>b\<close>.\<close>

definition parseInfoHeader ::
  "uint32 \<Rightarrow> uint32 \<Rightarrow> byte list \<Rightarrow> byte list \<Rightarrow> error + (decoder \<times> byte list)" where
  "parseInfoHeader offset infoLen b r =
     (let width0 = sint (readUint32 (drop 18 b));
          height0 = sint (readUint32 (drop 22 b));
          d0 = (if height0 < 0 then newDecoder\<lparr>d_topDown := True\<rparr> else newDecoder);
          width = width0;
          height = (if height0 < 0 then - height0 else height0)
      in if width < 0 \<or> height < 0 then Inl (UnsupportedError ''non-positive dimension'')
         else if readUint16 (drop 26 b) \<noteq> 1
         then Inl (UnsupportedError (''planes '' @ FormatUint (unat (readUint16 (drop 26 b)))))
         else
           (let d1 = d0\<lparr>d_bpp := readUint16 (drop 28 b)\<rparr>;
                compression = readUint32 (drop 30 b);
                colors = readUint32 (drop 46 b)
            in case resolveCompression d1 compression infoLen b r of
                 Inl err \<Rightarrow> Inl err
               | Inr (d2, compression', colorMaskLen, r') \<Rightarrow>
                   if compression' \<noteq> biRGB then Inl (UnsupportedError ''compression method'')
                   else configByDepth d2 offset infoLen colorMaskLen colors width height r'))"

text \<open>The method \<^verbatim>\<open>(*decoder).DecodeConfig\<close>, on the fresh decoder of its two callers.\<close>

definition decoder_DecodeConfig :: "byte list \<Rightarrow> error + (decoder \<times> byte list)" where
  "decoder_DecodeConfig r =
     (case ReadFull (fileHeaderLen + 4) r of
        Inl err \<Rightarrow> Inl (eofToUnexpected err)
      | Inr (b1, r1) \<Rightarrow>
          if take 2 b1 \<noteq> [0x42, 0x4D] then Inl (FormatError ''not a BMP file'')
          else
            (let offset = readUint32 (drop 10 b1);
                 infoLen = readUint32 (drop 14 b1)
             in if infoLen \<noteq> of_nat infoHeaderLen \<and> infoLen \<noteq> of_nat v4InfoHeaderLen
                   \<and> infoLen \<noteq> of_nat v5InfoHeaderLen
                then Inl (UnsupportedError ''DIB header version'')
                else (case ReadFull (unat infoLen - 4) r1 of
                        Inl err \<Rightarrow> Inl (eofToUnexpected err)
                      | Inr (b2, r2) \<Rightarrow> parseInfoHeader offset infoLen (b1 @ b2) r2)))"

text \<open>The rows in the order the file stores them: \<^verbatim>\<open>for y := y0; y != y1; y += yDelta\<close>.\<close>

definition rowOrder :: "bool \<Rightarrow> nat \<Rightarrow> nat list" where
  "rowOrder td h = (if td then [0..<h] else rev [0..<h])"

text \<open>\<^verbatim>\<open>d.c.ColorModel.(color.Palette)\<close>: the type assertion panics on another model.\<close>

definition assertPalette :: "colorModel \<Rightarrow> error + color list" where
  "assertPalette cm =
     (case cm of PaletteModel pal \<Rightarrow> Inr pal | _ \<Rightarrow> Inl (Panic ''interface conversion''))"

subsection \<open>1, 2 and 4 bits per pixel\<close>

text \<open>
  The loop over \<open>x\<close> of \<^verbatim>\<open>decodeSmallPaletted\<close>, with its cursor (\<^verbatim>\<open>byte\<close>, \<^verbatim>\<open>bit\<close>)
  into the row buffer \<open>b\<close>; \<open>p\<close> is the row of the pixel buffer.
\<close>

fun unpackRow :: "uint16 \<Rightarrow> byte list \<Rightarrow> nat list \<Rightarrow> nat \<Rightarrow> uint16 \<Rightarrow> byte list \<Rightarrow> byte list" where
  "unpackRow bits b [] byteIx bitPos p = p"
| "unpackRow bits b (x # xs) byteIx bitPos p =
     (let p' = p[x := drop_bit (unat bitPos) (b ! byteIx) AND (push_bit (unat bits) 1 - 1)]
      in if bitPos = 0 then unpackRow bits b xs (byteIx + 1) (8 - bits) p'
         else unpackRow bits b xs byteIx (bitPos - bits) p')"

definition smallRowLen :: "nat \<Rightarrow> nat \<Rightarrow> nat" where
  "smallRowLen bits w = align4 ((w + 8 div bits - 1) div (8 div bits))"

fun decodeSmallPaletted_rows ::
  "uint16 \<Rightarrow> nat \<Rightarrow> nat list \<Rightarrow> byte list \<Rightarrow> byte list \<Rightarrow> error + (byte list \<times> byte list)" where
  "decodeSmallPaletted_rows bits w [] pix r = Inr (pix, r)"
| "decodeSmallPaletted_rows bits w (y # ys) pix r =
     (case ReadFull (smallRowLen (unat bits) w) r of
        Inl err \<Rightarrow> Inl err
      | Inr (b, r') \<Rightarrow>
          decodeSmallPaletted_rows bits w ys
            (blit pix (y * w)
               (unpackRow bits b [0..<w] 0 (8 - bits) (take w (drop (y * w) pix)))) r')"

definition decodeSmallPaletted :: "decoder \<Rightarrow> byte list \<Rightarrow> error + (image \<times> byte list)" where
  "decodeSmallPaletted d r =
     (case assertPalette (c_ColorModel d) of
        Inl err \<Rightarrow> Inl err
      | Inr pal \<Rightarrow>
          let w = nat (c_Width d); h = nat (c_Height d);
              bounds = Rect0 (c_Width d) (c_Height d)
          in (case NewPix ''Paletted'' 1 w h of
                Inl err \<Rightarrow> Inl err
              | Inr pix0 \<Rightarrow>
                  if c_Width d = 0 \<or> c_Height d = 0
                  then Inr (Paletted pix0 w bounds pal, r)
                  else (case decodeSmallPaletted_rows (d_bpp d) w (rowOrder (d_topDown d) h)
                               pix0 r of
                          Inl err \<Rightarrow> Inl err
                        | Inr (pix, r') \<Rightarrow> Inr (Paletted pix w bounds pal, r'))))"

subsection \<open>8 bits per pixel\<close>

fun decodePaletted_rows ::
  "nat \<Rightarrow> nat list \<Rightarrow> byte list \<Rightarrow> byte list \<Rightarrow> error + (byte list \<times> byte list)" where
  "decodePaletted_rows w [] pix r = Inr (pix, r)"
| "decodePaletted_rows w (y # ys) pix r =
     (case ReadFull w r of
        Inl err \<Rightarrow> Inl err
      | Inr (p, r1) \<Rightarrow>
          (case (if w mod 4 \<noteq> 0 then ReadFull (4 - w mod 4) r1 else Inr ([], r1)) of
             Inl err \<Rightarrow> Inl err
           | Inr (tmp, r2) \<Rightarrow> decodePaletted_rows w ys (blit pix (y * w) p) r2))"

definition decodePaletted :: "decoder \<Rightarrow> byte list \<Rightarrow> error + (image \<times> byte list)" where
  "decodePaletted d r =
     (case assertPalette (c_ColorModel d) of
        Inl err \<Rightarrow> Inl err
      | Inr pal \<Rightarrow>
          let w = nat (c_Width d); h = nat (c_Height d);
              bounds = Rect0 (c_Width d) (c_Height d)
          in (case NewPix ''Paletted'' 1 w h of
                Inl err \<Rightarrow> Inl err
              | Inr pix0 \<Rightarrow>
                  if c_Width d = 0 \<or> c_Height d = 0
                  then Inr (Paletted pix0 w bounds pal, r)
                  else (case decodePaletted_rows w (rowOrder (d_topDown d) h) pix0 r of
                          Inl err \<Rightarrow> Inl err
                        | Inr (pix, r') \<Rightarrow> Inr (Paletted pix w bounds pal, r'))))"

subsection \<open>16, 24 and 32 bits per pixel\<close>

text \<open>
  One row of \<^verbatim>\<open>decodeRGB5x5\<close>, \<^verbatim>\<open>decodeRGB\<close> and \<^verbatim>\<open>decodeNRGBA\<close>: the four bytes
  the loop over \<open>i\<close> stores for each of the \<open>w\<close> pixels of the row.
\<close>

definition rgb5x5Pixel :: "bool \<Rightarrow> uint16 \<Rightarrow> byte list" where
  "rgb5x5Pixel rgb565 pixel =
     (if rgb565
      then [push_bit 3 (ucast (drop_bit 11 (pixel AND 0xF800))),
            push_bit 2 (ucast (drop_bit 5 (pixel AND 0x7E0)))]
      else [push_bit 3 (ucast (drop_bit 10 (pixel AND 0x7C00))),
            push_bit 3 (ucast (drop_bit 5 (pixel AND 0x3E0)))])
     @ [push_bit 3 (ucast (pixel AND 0x1F)), 0xFF]"

definition rgb5x5Row :: "bool \<Rightarrow> nat \<Rightarrow> byte list \<Rightarrow> byte list" where
  "rgb5x5Row rgb565 w b =
     concat (map (\<lambda>k. rgb5x5Pixel rgb565 (readUint16 (drop (2 * k) b))) [0..<w])"

definition rgbRow :: "nat \<Rightarrow> byte list \<Rightarrow> byte list" where
  "rgbRow w b = concat (map (\<lambda>k. [b ! (3 * k + 2), b ! (3 * k + 1), b ! (3 * k + 0), 0xFF]) [0..<w])"

definition nrgbaRow :: "bool \<Rightarrow> nat \<Rightarrow> byte list \<Rightarrow> byte list" where
  "nrgbaRow noAlpha w p =
     concat (map (\<lambda>k. [p ! (4 * k + 2), p ! (4 * k + 1), p ! (4 * k + 0),
                        if noAlpha then 0xFF else p ! (4 * k + 3)]) [0..<w])"

text \<open>
  The loop over the rows, shared by the three functions: read \<open>n\<close> bytes, store the
  converted row at \<^verbatim>\<open>rgba.Pix[y*rgba.Stride:]\<close>, where the stride is \<open>4 * w\<close>.
\<close>

fun decodeRows ::
  "(byte list \<Rightarrow> byte list) \<Rightarrow> nat \<Rightarrow> nat \<Rightarrow> nat list \<Rightarrow> byte list \<Rightarrow> byte list
     \<Rightarrow> error + (byte list \<times> byte list)" where
  "decodeRows conv n w [] pix r = Inr (pix, r)"
| "decodeRows conv n w (y # ys) pix r =
     (case ReadFull n r of
        Inl err \<Rightarrow> Inl err
      | Inr (b, r') \<Rightarrow> decodeRows conv n w ys (blit pix (y * (4 * w)) (conv b)) r')"

definition decodeRGB5x5 :: "decoder \<Rightarrow> byte list \<Rightarrow> error + (image \<times> byte list)" where
  "decodeRGB5x5 d r =
     (let w = nat (c_Width d); h = nat (c_Height d);
          bounds = Rect0 (c_Width d) (c_Height d)
      in (case NewPix ''RGBA'' 4 w h of
            Inl err \<Rightarrow> Inl err
          | Inr pix0 \<Rightarrow>
              if c_Width d = 0 \<or> c_Height d = 0
              then Inr (RGBA pix0 (4 * w) bounds, r)
              else (case decodeRows (rgb5x5Row (d_rgb565 d) w) (align4 (2 * w)) w
                           (rowOrder (d_topDown d) h) pix0 r of
                      Inl err \<Rightarrow> Inl err
                    | Inr (pix, r') \<Rightarrow> Inr (RGBA pix (4 * w) bounds, r'))))"

definition decodeRGB :: "decoder \<Rightarrow> byte list \<Rightarrow> error + (image \<times> byte list)" where
  "decodeRGB d r =
     (let w = nat (c_Width d); h = nat (c_Height d);
          bounds = Rect0 (c_Width d) (c_Height d)
      in (case NewPix ''RGBA'' 4 w h of
            Inl err \<Rightarrow> Inl err
          | Inr pix0 \<Rightarrow>
              if c_Width d = 0 \<or> c_Height d = 0
              then Inr (RGBA pix0 (4 * w) bounds, r)
              else (case decodeRows (rgbRow w) (align4 (3 * w)) w
                           (rowOrder (d_topDown d) h) pix0 r of
                      Inl err \<Rightarrow> Inl err
                    | Inr (pix, r') \<Rightarrow> Inr (RGBA pix (4 * w) bounds, r'))))"

definition decodeNRGBA :: "decoder \<Rightarrow> byte list \<Rightarrow> error + (image \<times> byte list)" where
  "decodeNRGBA d r =
     (let w = nat (c_Width d); h = nat (c_Height d);
          bounds = Rect0 (c_Width d) (c_Height d)
      in (case NewPix ''NRGBA'' 4 w h of
            Inl err \<Rightarrow> Inl err
          | Inr pix0 \<Rightarrow>
              if c_Width d = 0 \<or> c_Height d = 0
              then Inr (NRGBA pix0 (4 * w) bounds, r)
              else (case decodeRows (nrgbaRow (d_noAlpha d) w) (w * 4) w
                           (rowOrder (d_topDown d) h) pix0 r of
                      Inl err \<Rightarrow> Inl err
                    | Inr (pix, r') \<Rightarrow> Inr (NRGBA pix (4 * w) bounds, r'))))"

subsection \<open>Run-length encoded images\<close>

text \<open>The closure \<^verbatim>\<open>isValid\<close> of \<^verbatim>\<open>decodeRLE\<close> on the cursor \<open>(x, y)\<close>.\<close>

definition isValid :: "nat \<Rightarrow> nat \<Rightarrow> int \<Rightarrow> int \<Rightarrow> bool" where
  "isValid stride height x y = (x \<ge> 0 \<and> x < int stride \<and> y \<ge> 0 \<and> y < int height)"

text \<open>
  The assignment \<^verbatim>\<open>paletted.Pix[i] = c\<close>: Go checks the index and panics when it is
  out of range.
\<close>

definition storePix :: "byte list \<Rightarrow> int \<Rightarrow> byte \<Rightarrow> error + byte list" where
  "storePix pix i c =
     (if 0 \<le> i \<and> i < int (length pix) then Inr (pix[nat i := c])
      else Inl (Panic ''Pix: index out of range''))"

text \<open>
  What a statement about the cursor observes of a run of \<^verbatim>\<open>decodeRLE\<close>:
  \<open>Stored x y\<close>, the assignment \<^verbatim>\<open>paletted.Pix[y*paletted.Stride+x] = c\<close> reached with
  the cursor at \<open>(x, y)\<close>, and \<open>Moved x y\<close>, the cursor \<open>(x, y)\<close> that an end-of-line or
  a delta opcode has set. The functions of \<^verbatim>\<open>decodeRLE\<close> below return the list of
  these events, in the order of the run, next to their result; no result depends on it.
\<close>

datatype rleEvent = Stored int int | Moved int int

text \<open>
  The loop of the absolute mode, over the counter \<open>i\<close> (a \<^verbatim>\<open>uint8\<close>, so that \<open>i + 1\<close>
  wraps at 256) and the index \<open>j\<close> into the 256-byte buffer \<open>b\<close>.
\<close>

function absoluteRun ::
  "uint16 \<Rightarrow> nat \<Rightarrow> nat \<Rightarrow> byte list \<Rightarrow> byte \<Rightarrow> byte \<Rightarrow> nat \<Rightarrow> int \<Rightarrow> int \<Rightarrow> byte list
     \<Rightarrow> rleEvent list \<Rightarrow> (error + (int \<times> byte list)) \<times> rleEvent list" where
  "absoluteRun bits stride height b b2 i j x y pix ev =
     (if \<not> i < b2 then (Inr (x, pix), ev)
      else if bits \<noteq> 8 \<and> \<not> j < length b then (Inl (Panic ''b: index out of range''), ev)
      else if \<not> isValid stride height x y then (Inl (FormatError ''invalid RLE data''), ev)
      else
        (case storePix pix (y * int stride + x)
                (if bits = 8 then b ! unat i else drop_bit 4 (b ! j) AND 0xF) of
           Inl err \<Rightarrow> (Inl err, ev @ [Stored x y])
         | Inr pix1 \<Rightarrow>
             if bits = 4 then
               (if i + 1 < b2 then
                  (if \<not> isValid stride height (x + 1) y
                   then (Inl (FormatError ''invalid RLE data''), ev @ [Stored x y])
                   else (case storePix pix1 (y * int stride + (x + 1)) (b ! j AND 0xF) of
                           Inl err \<Rightarrow> (Inl err, ev @ [Stored x y, Stored (x + 1) y])
                         | Inr pix2 \<Rightarrow>
                             absoluteRun bits stride height b b2 (i + 1 + 1)
                               (if (i + 1) mod 2 \<noteq> 0 then j + 1 else j) (x + 1 + 1) y pix2
                               (ev @ [Stored x y, Stored (x + 1) y])))
                else absoluteRun bits stride height b b2 (i + 1 + 1)
                       (if (i + 1) mod 2 \<noteq> 0 then j + 1 else j) (x + 1) y pix1
                       (ev @ [Stored x y]))
             else absoluteRun bits stride height b b2 (i + 1) j (x + 1) y pix1
                    (ev @ [Stored x y])))"
  by pat_completeness auto
termination
  by (relation "measure (\<lambda>(bits, stride, height, b, b2, i, j, x, y, pix, ev). nat (int stride - x))")
     (auto simp: isValid_def)

text \<open>The loop of the encoded mode; \<open>is\<close> are the values \<open>i\<close> takes, from 0 to \<open>b1 - 1\<close>.\<close>

fun encodedRun ::
  "uint16 \<Rightarrow> nat \<Rightarrow> nat \<Rightarrow> byte \<Rightarrow> byte list \<Rightarrow> int \<Rightarrow> int \<Rightarrow> byte list
     \<Rightarrow> rleEvent list \<Rightarrow> (error + (int \<times> byte list)) \<times> rleEvent list" where
  "encodedRun bits stride height b2 [] x y pix ev = (Inr (x, pix), ev)"
| "encodedRun bits stride height b2 (i # is) x y pix ev =
     (if \<not> isValid stride height x y then (Inl (FormatError ''invalid RLE data''), ev)
      else (case storePix pix (y * int stride + x)
                   (if bits = 8 then b2
                    else if i mod 2 = 0 then drop_bit 4 b2 AND 0xF else b2 AND 0xF) of
              Inl err \<Rightarrow> (Inl err, ev @ [Stored x y])
            | Inr pix' \<Rightarrow>
                encodedRun bits stride height b2 is (x + 1) y pix' (ev @ [Stored x y])))"

text \<open>The number of bytes of an absolute run of \<open>b2\<close> pixels, with its padding byte.\<close>

definition absoluteLen :: "uint16 \<Rightarrow> byte \<Rightarrow> uint16" where
  "absoluteLen bits b2 =
     (let n = (ucast b2 * bits + 8 - 1) div 8
      in if (bits = 8 \<and> b2 AND 0x1 \<noteq> 0) \<or> (bits = 4 \<and> (b2 AND 0x3 = 1 \<or> b2 AND 0x3 = 2))
         then n + 1 else n)"

text \<open>
  The loop \<^verbatim>\<open>Loop\<close> of \<^verbatim>\<open>decodeRLE\<close>: the 256-byte buffer \<open>b\<close>, the cursor, the pixel
  buffer and the reader are its state.
\<close>

function rleLoop ::
  "uint16 \<Rightarrow> nat \<Rightarrow> nat \<Rightarrow> byte list \<Rightarrow> int \<Rightarrow> int \<Rightarrow> byte list \<Rightarrow> byte list
     \<Rightarrow> rleEvent list \<Rightarrow> (error + (byte list \<times> byte list)) \<times> rleEvent list" where
  "rleLoop bits stride height b x y pix r ev =
     (case ReadFull 2 r of
        Inl err \<Rightarrow> (Inl err, ev)
      | Inr (rd, r1) \<Rightarrow>
          if blit b 0 rd ! 0 = 0 then
            (if blit b 0 rd ! 1 = 0 then
               (if \<not> isValid stride height 0 (y - 1)
                then (Inl (FormatError ''invalid RLE data''), ev @ [Moved 0 (y - 1)])
                else rleLoop bits stride height (blit b 0 rd) 0 (y - 1) pix r1
                       (ev @ [Moved 0 (y - 1)]))
             else if blit b 0 rd ! 1 = 1 then (Inr (pix, r1), ev)
             else if blit b 0 rd ! 1 = 2 then
               (case ReadFull 2 r1 of
                  Inl err \<Rightarrow> (Inl err, ev)
                | Inr (rd2, r2) \<Rightarrow>
                    if \<not> isValid stride height (x + uint (blit (blit b 0 rd) 0 rd2 ! 0))
                           (y - uint (blit (blit b 0 rd) 0 rd2 ! 1))
                    then (Inl (FormatError ''invalid RLE data''),
                          ev @ [Moved (x + uint (blit (blit b 0 rd) 0 rd2 ! 0))
                                  (y - uint (blit (blit b 0 rd) 0 rd2 ! 1))])
                    else rleLoop bits stride height (blit (blit b 0 rd) 0 rd2)
                           (x + uint (blit (blit b 0 rd) 0 rd2 ! 0))
                           (y - uint (blit (blit b 0 rd) 0 rd2 ! 1)) pix r2
                           (ev @ [Moved (x + uint (blit (blit b 0 rd) 0 rd2 ! 0))
                                    (y - uint (blit (blit b 0 rd) 0 rd2 ! 1))]))
             else if 256 < unat (absoluteLen bits (blit b 0 rd ! 1))
             then (Inl (Panic ''b: slice bounds out of range''), ev)
             else
               (case ReadFull (unat (absoluteLen bits (blit b 0 rd ! 1))) r1 of
                  Inl err \<Rightarrow> (Inl err, ev)
                | Inr (data, r2) \<Rightarrow>
                    (case absoluteRun bits stride height (blit (blit b 0 rd) 0 data)
                            (blit b 0 rd ! 1) 0 0 x y pix ev of
                       (Inl err, ev') \<Rightarrow> (Inl err, ev')
                     | (Inr (x', pix'), ev') \<Rightarrow>
                         rleLoop bits stride height (blit (blit b 0 rd) 0 data) x' y pix' r2 ev')))
          else
            (case encodedRun bits stride height (blit b 0 rd ! 1)
                    (map of_nat [0..<unat (blit b 0 rd ! 0)]) x y pix ev of
               (Inl err, ev') \<Rightarrow> (Inl err, ev')
             | (Inr (x', pix'), ev') \<Rightarrow>
                 rleLoop bits stride height (blit b 0 rd) x' y pix' r1 ev'))"
  by pat_completeness auto
termination
  by (relation "measure (\<lambda>(bits, stride, height, b, x, y, pix, r, ev). length r)")
     (auto simp: ReadFull_def split: if_splits)

text \<open>
  \<^verbatim>\<open>decodeRLE\<close>: the result of the Go function, and the events of the run.
\<close>

definition decodeRLE :: "decoder \<Rightarrow> byte list \<Rightarrow> (error + (image \<times> byte list)) \<times> rleEvent list" where
  "decodeRLE d r =
     (case assertPalette (c_ColorModel d) of
        Inl err \<Rightarrow> (Inl err, [])
      | Inr pal \<Rightarrow>
          let w = nat (c_Width d); h = nat (c_Height d);
              bounds = Rect0 (c_Width d) (c_Height d)
          in (case NewPix ''Paletted'' 1 w h of
                Inl err \<Rightarrow> (Inl err, [])
              | Inr pix0 \<Rightarrow>
                  if c_Width d = 0 \<or> c_Height d = 0
                  then (Inr (Paletted pix0 w bounds pal, r), [])
                  else (case rleLoop (d_bpp d) w h (replicate 256 0) 0 (c_Height d - 1)
                               pix0 r [] of
                          (Inl err, ev) \<Rightarrow> (Inl err, ev)
                        | (Inr (pix, r'), ev) \<Rightarrow> (Inr (Paletted pix w bounds pal, r'), ev))))"


subsection \<open>The two entry points\<close>

text \<open>The method \<^verbatim>\<open>(*decoder).Decode\<close>.\<close>

definition decoder_Decode :: "decoder \<Rightarrow> byte list \<Rightarrow> error + (image \<times> byte list)" where
  "decoder_Decode d r =
     (if d_rle d then fst (decodeRLE d r)
      else if d_bpp d = 1 \<or> d_bpp d = 2 \<or> d_bpp d = 4 then decodeSmallPaletted d r
      else if d_bpp d = 8 then decodePaletted d r
      else if d_bpp d = 16 then decodeRGB5x5 d r
      else if d_bpp d = 24 then decodeRGB d r
      else if d_bpp d = 32 then decodeNRGBA d r
      else Inl (Panic ''unreachable''))"

text \<open>
  The functions \<^verbatim>\<open>Decode\<close> and \<^verbatim>\<open>DecodeConfig\<close>. Both results come with the bytes of
  the reader that were not read.
\<close>

definition Decode :: "byte list \<Rightarrow> error + (image \<times> byte list)" where
  "Decode r =
     (case decoder_DecodeConfig r of
        Inl err \<Rightarrow> Inl err
      | Inr (d, r') \<Rightarrow> decoder_Decode d r')"

definition DecodeConfig :: "byte list \<Rightarrow> error + ((colorModel \<times> int \<times> int) \<times> byte list)" where
  "DecodeConfig r =
     (case decoder_DecodeConfig r of
        Inl err \<Rightarrow> Inl err
      | Inr (d, r') \<Rightarrow> Inr ((c_ColorModel d, c_Width d, c_Height d), r'))"

text \<open>
  \<^verbatim>\<open>init\<close> registers the format with the magic string \<^verbatim>\<open>"BM????\x00\x00\x00\x00"\<close>.
  The registry of Go's \<^verbatim>\<open>image\<close> package peeks at as many bytes as the magic string
  has and compares them one by one, a \<^verbatim>\<open>?\<close> in the magic string matching any byte.
\<close>

definition magic :: "byte list" where
  "magic = [0x42, 0x4D, 0x3F, 0x3F, 0x3F, 0x3F, 0, 0, 0, 0]"

fun match_bytes :: "byte list \<Rightarrow> byte list \<Rightarrow> bool" where
  "match_bytes [] [] = True"
| "match_bytes (m # ms) (c # cs) = ((m = c \<or> m = 0x3F) \<and> match_bytes ms cs)"
| "match_bytes _ _ = False"

definition sniff :: "byte list \<Rightarrow> bool" where
  "sniff r = (length magic \<le> length r \<and> match_bytes magic (take (length magic) r))"

section \<open>The encoder (writer.go)\<close>

text \<open>
  The writer is a buffer in memory that takes every write: a function that writes
  returns the bytes it wrote, in order. An index out of range, into the source buffer
  \<^verbatim>\<open>pix\<close> or into the row buffer, is a panic.
\<close>

definition indexPanic :: error where
  "indexPanic = Panic ''index out of range''"

text \<open>Running \<open>f\<close> over a list, stopping at the first error, and joining what it wrote.\<close>

fun concatE :: "('a \<Rightarrow> error + byte list) \<Rightarrow> 'a list \<Rightarrow> error + byte list" where
  "concatE f [] = Inr []"
| "concatE f (x # xs) =
     (case f x of
        Inl err \<Rightarrow> Inl err
      | Inr bs \<Rightarrow> (case concatE f xs of Inl err \<Rightarrow> Inl err | Inr rest \<Rightarrow> Inr (bs @ rest)))"

subsection \<open>1, 2 and 4 bits per pixel\<close>

text \<open>
  The loop over \<open>x\<close> of \<^verbatim>\<open>encodeSmallPaletted\<close> on the row that starts at
  \<^verbatim>\<open>pix[base]\<close>, with its cursor into the row buffer \<open>b\<close>.
\<close>

fun packRow :: "nat \<Rightarrow> byte list \<Rightarrow> nat \<Rightarrow> nat list \<Rightarrow> nat \<Rightarrow> nat \<Rightarrow> byte list \<Rightarrow> error + byte list" where
  "packRow bits pix base [] byteIx bitPos b = Inr b"
| "packRow bits pix base (x # xs) byteIx bitPos b =
     (if \<not> base + x < length pix \<or> \<not> byteIx < length b then Inl indexPanic
      else
        (let b' = b[byteIx := (b ! byteIx AND NOT (push_bit bitPos (push_bit bits 1 - 1)))
                                OR push_bit bitPos (pix ! (base + x))]
         in if bitPos = 0 then packRow bits pix base xs (byteIx + 1) (8 - bits) b'
            else packRow bits pix base xs byteIx (bitPos - bits) b'))"

text \<open>The loop over \<open>y\<close>; the row buffer \<open>b\<close> is allocated once and used for every row.\<close>

fun encodeSmallPaletted_rows ::
  "byte list \<Rightarrow> nat \<Rightarrow> nat \<Rightarrow> nat \<Rightarrow> nat list \<Rightarrow> byte list \<Rightarrow> error + byte list" where
  "encodeSmallPaletted_rows pix bits dx stride [] b = Inr []"
| "encodeSmallPaletted_rows pix bits dx stride (y # ys) b =
     (case packRow bits pix (y * stride) [0..<dx] 0 (8 - bits) b of
        Inl err \<Rightarrow> Inl err
      | Inr b' \<Rightarrow>
          (case encodeSmallPaletted_rows pix bits dx stride ys b' of
             Inl err \<Rightarrow> Inl err
           | Inr rest \<Rightarrow> Inr (b' @ rest)))"

definition encodeSmallPaletted ::
  "byte list \<Rightarrow> nat \<Rightarrow> nat \<Rightarrow> nat \<Rightarrow> nat \<Rightarrow> nat \<Rightarrow> error + byte list" where
  "encodeSmallPaletted pix bits dx dy stride step =
     encodeSmallPaletted_rows pix bits dx stride (rev [0..<dy]) (replicate step 0)"

subsection \<open>8 bits per pixel\<close>

text \<open>One row of \<^verbatim>\<open>encodePaletted\<close>: the slice \<^verbatim>\<open>pix[min:max]\<close>, then the padding.\<close>

definition palettedRow :: "byte list \<Rightarrow> nat \<Rightarrow> nat \<Rightarrow> nat \<Rightarrow> nat \<Rightarrow> error + byte list" where
  "palettedRow pix dx stride step y =
     (if length pix < y * stride + dx then Inl indexPanic
      else Inr (take dx (drop (y * stride + 0) pix)
                @ (if dx < step then replicate (step - dx) 0 else [])))"

definition encodePaletted :: "byte list \<Rightarrow> nat \<Rightarrow> nat \<Rightarrow> nat \<Rightarrow> nat \<Rightarrow> error + byte list" where
  "encodePaletted pix dx dy stride step = concatE (palettedRow pix dx stride step) (rev [0..<dy])"

subsection \<open>True colour\<close>

text \<open>
  The bodies of the loops over \<open>i\<close> of \<^verbatim>\<open>encodeRGBA\<close> and \<^verbatim>\<open>encodeNRGBA\<close>: the bytes
  stored at \<^verbatim>\<open>buf[off:]\<close> for the pixel at \<^verbatim>\<open>pix[i:]\<close>.
\<close>

definition opaquePixel :: "byte list \<Rightarrow> nat \<Rightarrow> error + byte list" where
  "opaquePixel pix i =
     (if \<not> i + 2 < length pix then Inl indexPanic
      else Inr [pix ! (i + 2), pix ! (i + 1), pix ! (i + 0)])"

definition unpremultiply :: "byte \<Rightarrow> uint32 \<Rightarrow> byte" where
  "unpremultiply c a = ucast (drop_bit 8 ((ucast c * 0xffff) div a))"

definition rgbaPixel :: "byte list \<Rightarrow> nat \<Rightarrow> error + byte list" where
  "rgbaPixel pix i =
     (if \<not> i + 3 < length pix then Inl indexPanic
      else
        (let a = ucast (pix ! (i + 3)) :: uint32
         in if a = 0 then Inr [0, 0, 0, 0]
            else if a = 0xff then Inr [pix ! (i + 2), pix ! (i + 1), pix ! (i + 0), 0xff]
            else Inr [unpremultiply (pix ! (i + 2)) a, unpremultiply (pix ! (i + 1)) a,
                      unpremultiply (pix ! (i + 0)) a, ucast a]))"

definition nrgbaPixel :: "byte list \<Rightarrow> nat \<Rightarrow> error + byte list" where
  "nrgbaPixel pix i =
     (if \<not> i + 3 < length pix then Inl indexPanic
      else Inr [pix ! (i + 2), pix ! (i + 1), pix ! (i + 0), pix ! (i + 3)])"

text \<open>
  The loop over \<open>y\<close>: the row buffer \<open>buf\<close> of \<open>step\<close> bytes is allocated once; each row
  overwrites its first bytes and writes the whole buffer.
\<close>

fun encodeRows ::
  "(nat \<Rightarrow> error + byte list) \<Rightarrow> nat \<Rightarrow> nat \<Rightarrow> nat list \<Rightarrow> byte list \<Rightarrow> error + byte list" where
  "encodeRows px dx stride [] buf = Inr []"
| "encodeRows px dx stride (y # ys) buf =
     (case concatE px (map (\<lambda>k. y * stride + 0 + 4 * k) [0..<dx]) of
        Inl err \<Rightarrow> Inl err
      | Inr row \<Rightarrow>
          if length buf < length row then Inl indexPanic
          else (case encodeRows px dx stride ys (blit buf 0 row) of
                  Inl err \<Rightarrow> Inl err
                | Inr rest \<Rightarrow> Inr (blit buf 0 row @ rest)))"

definition encodeRGBA ::
  "byte list \<Rightarrow> nat \<Rightarrow> nat \<Rightarrow> nat \<Rightarrow> nat \<Rightarrow> bool \<Rightarrow> error + byte list" where
  "encodeRGBA pix dx dy stride step opaque =
     (if opaque then encodeRows (opaquePixel pix) dx stride (rev [0..<dy]) (replicate step 0)
      else encodeRows (rgbaPixel pix) dx stride (rev [0..<dy]) (replicate step 0))"

definition encodeNRGBA ::
  "byte list \<Rightarrow> nat \<Rightarrow> nat \<Rightarrow> nat \<Rightarrow> nat \<Rightarrow> bool \<Rightarrow> error + byte list" where
  "encodeNRGBA pix dx dy stride step opaque =
     (if opaque then encodeRows (opaquePixel pix) dx stride (rev [0..<dy]) (replicate step 0)
      else encodeRows (nrgbaPixel pix) dx stride (rev [0..<dy]) (replicate step 0))"

text \<open>The function \<^verbatim>\<open>encode\<close>, for an image of any other type, through \<^verbatim>\<open>At\<close>.\<close>

definition atPixel :: "(int \<Rightarrow> int \<Rightarrow> color) \<Rightarrow> int \<Rightarrow> int \<Rightarrow> byte list" where
  "atPixel at y x =
     (case color_RGBA (at x y) of
        (r, g, b, a) \<Rightarrow> [ucast (drop_bit 8 b), ucast (drop_bit 8 g), ucast (drop_bit 8 r)])"

fun encode_rows ::
  "(int \<Rightarrow> int \<Rightarrow> color) \<Rightarrow> rectangle \<Rightarrow> int list \<Rightarrow> byte list \<Rightarrow> error + byte list" where
  "encode_rows at bounds [] buf = Inr []"
| "encode_rows at bounds (y # ys) buf =
     (let row = concat (map (atPixel at y) [MinX bounds..MaxX bounds - 1])
      in if length buf < length row then Inl indexPanic
         else (case encode_rows at bounds ys (blit buf 0 row) of
                 Inl err \<Rightarrow> Inl err
               | Inr rest \<Rightarrow> Inr (blit buf 0 row @ rest)))"

definition encode :: "(int \<Rightarrow> int \<Rightarrow> color) \<Rightarrow> rectangle \<Rightarrow> nat \<Rightarrow> error + byte list" where
  "encode at bounds step =
     encode_rows at bounds (rev [MinY bounds..MaxY bounds - 1]) (replicate step 0)"

subsection \<open>The header and the choice of the format\<close>

text \<open>The anonymous struct \<open>h\<close> of \<^verbatim>\<open>Encode\<close>.\<close>

record header =
  h_sigBM :: "byte list"
  h_fileSize :: uint32
  h_reserved :: "uint16 list"
  h_pixOffset :: uint32
  h_dibHeaderSize :: uint32
  h_width :: uint32
  h_height :: uint32
  h_colorPlane :: uint16
  h_bpp :: uint16
  h_compression :: uint32
  h_imageSize :: uint32
  h_xPixelsPerMeter :: uint32
  h_yPixelsPerMeter :: uint32
  h_colorUse :: uint32
  h_colorImportant :: uint32

definition initHeader :: "int \<Rightarrow> int \<Rightarrow> header" where
  "initHeader dX dY =
     \<lparr>h_sigBM = [0x42, 0x4D],
      h_fileSize = of_nat (fileHeaderLen + infoHeaderLen),
      h_reserved = [0, 0],
      h_pixOffset = of_nat (fileHeaderLen + infoHeaderLen),
      h_dibHeaderSize = of_nat infoHeaderLen,
      h_width = word_of_int dX,
      h_height = word_of_int dY,
      h_colorPlane = 1,
      h_bpp = 0,
      h_compression = 0,
      h_imageSize = 0,
      h_xPixelsPerMeter = 0,
      h_yPixelsPerMeter = 0,
      h_colorUse = 0,
      h_colorImportant = 0\<rparr>"

text \<open>\<^verbatim>\<open>binary.Write(w, binary.LittleEndian, h)\<close>: the fields in order, low byte first.\<close>

definition le16 :: "uint16 \<Rightarrow> byte list" where
  "le16 v = [ucast v, ucast (drop_bit 8 v)]"

definition le32 :: "uint32 \<Rightarrow> byte list" where
  "le32 v = [ucast v, ucast (drop_bit 8 v), ucast (drop_bit 16 v), ucast (drop_bit 24 v)]"

definition headerBytes :: "header \<Rightarrow> byte list" where
  "headerBytes h =
     h_sigBM h @ le32 (h_fileSize h) @ concat (map le16 (h_reserved h)) @ le32 (h_pixOffset h)
     @ le32 (h_dibHeaderSize h) @ le32 (h_width h) @ le32 (h_height h)
     @ le16 (h_colorPlane h) @ le16 (h_bpp h) @ le32 (h_compression h) @ le32 (h_imageSize h)
     @ le32 (h_xPixelsPerMeter h) @ le32 (h_yPixelsPerMeter h) @ le32 (h_colorUse h)
     @ le32 (h_colorImportant h)"

text \<open>
  \<^verbatim>\<open>(*image.RGBA).Opaque\<close> and \<^verbatim>\<open>(*image.NRGBA).Opaque\<close> of Go's \<^verbatim>\<open>image\<close> package:
  an empty rectangle is opaque; otherwise every alpha byte inside the bounds is 0xff.
\<close>

definition Opaque :: "image \<Rightarrow> bool" where
  "Opaque m =
     (MinX (Rect m) \<ge> MaxX (Rect m) \<or> MinY (Rect m) \<ge> MaxY (Rect m) \<or>
      list_all (\<lambda>y. list_all (\<lambda>x. Pix m ! (y * Stride m + 4 * x + 3) = 0xff)
                  [0..<nat (Dx (Rect m))]) [0..<nat (Dy (Rect m))])"

text \<open>The palette the \<^verbatim>\<open>*image.Gray\<close> case builds.\<close>

definition grayPalette :: "byte list" where
  "grayPalette = concat (map (\<lambda>i. [of_nat i, of_nat i, of_nat i, 0xFF]) [0..<256])"

text \<open>The \<^verbatim>\<open>*image.Paletted\<close> case: the bit depth for a palette of \<open>n\<close> colours.\<close>

definition palettedBpp :: "nat \<Rightarrow> uint16" where
  "palettedBpp n = (if n \<le> 2 then 1 else if n \<le> 4 then 2 else if n \<le> 16 then 4 else 8)"

definition paletteEntry :: "color \<Rightarrow> byte list" where
  "paletteEntry c =
     (case color_RGBA c of
        (r, g, b, a) \<Rightarrow> [ucast (drop_bit 8 b), ucast (drop_bit 8 g), ucast (drop_bit 8 r), 0xFF])"

text \<open>
  The first type switch of \<^verbatim>\<open>Encode\<close>: the header, \<^verbatim>\<open>step\<close>, \<^verbatim>\<open>palette\<close> (which
  may be nil) and \<^verbatim>\<open>opaque\<close>. The palette has \<^verbatim>\<open>colors*4\<close> bytes and the loop fills
  the entries below \<^verbatim>\<open>len(m.Palette)\<close> and \<^verbatim>\<open>1<<h.bpp\<close>, which are all of them.
\<close>

definition setSizes :: "header \<Rightarrow> uint16 \<Rightarrow> nat \<Rightarrow> nat \<Rightarrow> header" where
  "setSizes h bits paletteLen imageSize =
     h\<lparr>h_bpp := bits,
       h_imageSize := of_nat imageSize,
       h_fileSize := h_fileSize h + of_nat paletteLen + of_nat imageSize,
       h_pixOffset := h_pixOffset h + of_nat paletteLen\<rparr>"

definition selectFormat ::
  "image \<Rightarrow> header \<Rightarrow> nat \<Rightarrow> nat \<Rightarrow> error + (header \<times> nat \<times> byte list option \<times> bool)" where
  "selectFormat m h dX dY =
     (case m of
        Gray pix stride bounds \<Rightarrow>
          (let step = align4 dX
           in Inr (setSizes h 8 (length grayPalette) (dY * step), step, Some grayPalette, False))
      | Paletted pix stride bounds pal \<Rightarrow>
          if length pal = 0 \<or> length pal > 256
          then Inl (FormatError (''bad palette length: '' @ FormatUint (length pal)))
          else
            (let bits = palettedBpp (length pal);
                 colors = (if length pal < 2 ^ unat bits then length pal else 2 ^ unat bits);
                 h1 = (if length pal < 2 ^ unat bits then h\<lparr>h_colorUse := of_nat colors\<rparr> else h);
                 step = (if bits < 8 then align4 ((dX + 8 div unat bits - 1) div (8 div unat bits))
                         else align4 dX);
                 palette = concat (map paletteEntry (take colors pal))
             in Inr (setSizes h1 bits (length palette) (dY * step), step, Some palette, False))
      | RGBA pix stride bounds \<Rightarrow>
          if Opaque m
          then Inr (setSizes h 24 0 (dY * align4 (3 * dX)), align4 (3 * dX), None, True)
          else Inr (setSizes h 32 0 (dY * (4 * dX)), 4 * dX, None, False)
      | NRGBA pix stride bounds \<Rightarrow>
          if Opaque m
          then Inr (setSizes h 24 0 (dY * align4 (3 * dX)), align4 (3 * dX), None, True)
          else Inr (setSizes h 32 0 (dY * (4 * dX)), 4 * dX, None, False)
      | Other bounds at \<Rightarrow>
          Inr (setSizes h 24 0 (dY * align4 (3 * dX)), align4 (3 * dX), None, False))"

text \<open>The second type switch: the rows of the pixel data.\<close>

definition encodePixels :: "image \<Rightarrow> uint16 \<Rightarrow> nat \<Rightarrow> nat \<Rightarrow> nat \<Rightarrow> bool \<Rightarrow> error + byte list" where
  "encodePixels m bits dX dY step opaque =
     (case m of
        Gray pix stride bounds \<Rightarrow> encodePaletted pix dX dY stride step
      | Paletted pix stride bounds pal \<Rightarrow>
          if bits < 8 then encodeSmallPaletted pix (unat bits) dX dY stride step
          else encodePaletted pix dX dY stride step
      | RGBA pix stride bounds \<Rightarrow> encodeRGBA pix dX dY stride step opaque
      | NRGBA pix stride bounds \<Rightarrow> encodeNRGBA pix dX dY stride step opaque
      | Other bounds at \<Rightarrow> encode at bounds step)"

text \<open>The function \<^verbatim>\<open>Encode\<close>: the bytes written to \<open>w\<close>.\<close>

definition Encode :: "image \<Rightarrow> error + byte list" where
  "Encode m =
     (let dX = Dx (Rect m); dY = Dy (Rect m)
      in if dX < 0 \<or> dY < 0 then Inl (FormatError ''negative bounds'')
         else
           (case selectFormat m (initHeader dX dY) (nat dX) (nat dY) of
              Inl err \<Rightarrow> Inl err
            | Inr (h, step, palette, opaque) \<Rightarrow>
                (let head = headerBytes h @ (case palette of None \<Rightarrow> [] | Some p \<Rightarrow> p)
                 in if dX = 0 \<or> dY = 0 then Inr head
                    else (case encodePixels m (h_bpp h) (nat dX) (nat dY) step opaque of
                            Inl err \<Rightarrow> Inl err
                          | Inr rows \<Rightarrow> Inr (head @ rows)))))"

section \<open>Predicates of the statements\<close>

text \<open>The two constant fields of the header \<^verbatim>\<open>Encode\<close> writes.\<close>

definition hdrOK :: "header \<Rightarrow> bool" where
  "hdrOK h \<longleftrightarrow> h_sigBM h = [0x42, 0x4D] \<and> h_reserved h = [0, 0]"

text \<open>
  The conversion of C7 in the claim's words, on numbers without a width: the scaled
  division \<open>((c \<times> 0xFFFF) / alpha) >> 8\<close>, the naive one, and the four bytes written for
  a premultiplied pixel \<open>(r, g, b, a)\<close>, blue first.
\<close>

definition scaledDiv :: "nat \<Rightarrow> nat \<Rightarrow> nat" where
  "scaledDiv c a = (c * 0xFFFF div a) div 2 ^ 8"

definition naiveDiv :: "nat \<Rightarrow> nat \<Rightarrow> nat" where
  "naiveDiv c a = c * 0xFF div a"

definition straightAlpha :: "byte \<Rightarrow> byte \<Rightarrow> byte \<Rightarrow> byte \<Rightarrow> byte list" where
  "straightAlpha r g b a =
     (if a = 0 then [0, 0, 0, 0]
      else if a = 0xFF then [b, g, r, 0xFF]
      else [of_nat (scaledDiv (unat b) (unat a)), of_nat (scaledDiv (unat g) (unat a)),
            of_nat (scaledDiv (unat r) (unat a)), a])"

text \<open>The bytes a per-pixel function \<open>px\<close> gives for the row \<open>y\<close> of a true-colour buffer.\<close>

definition rowsOf :: "(nat \<Rightarrow> error + byte list) \<Rightarrow> nat \<Rightarrow> nat \<Rightarrow> nat \<Rightarrow> byte list" where
  "rowsOf px dx stride y = concat (map (\<lambda>k. projr (px (y * stride + 4 * k))) [0..<dx])"

text \<open>
  The palette bytes \<^verbatim>\<open>Encode\<close> writes after the header, and the palette lengths it
  accepts (it returns a \<^verbatim>\<open>FormatError\<close> for an indexed image with an empty palette or
  with more than 256 colours).
\<close>

definition paletteOf :: "image \<Rightarrow> byte list" where
  "paletteOf m =
     (case m of
        Gray pix stride bounds \<Rightarrow> grayPalette
      | Paletted pix stride bounds pal \<Rightarrow> concat (map paletteEntry pal)
      | _ \<Rightarrow> [])"

definition paletteLenOK :: "image \<Rightarrow> bool" where
  "paletteLenOK m =
     (case m of
        Paletted pix stride bounds pal \<Rightarrow> 0 < length pal \<and> length pal \<le> 256
      | _ \<Rightarrow> True)"

text \<open>
  The decoder as lines 107 to 118 of \<^verbatim>\<open>DecodeConfig\<close> leave it: the row order from the
  sign of the height and the bit depth, read from the header \<open>b\<close>.
\<close>

definition headerDecoder :: "byte list \<Rightarrow> decoder" where
  "headerDecoder b =
     (if sint (readUint32 (drop 22 b)) < 0 then newDecoder\<lparr>d_topDown := True\<rparr> else newDecoder)
       \<lparr>d_bpp := readUint16 (drop 28 b)\<rparr>"

text \<open>
  What the loop over the rows of a decoding function leaves in the pixel buffer when the
  reader holds enough bytes: each row \<open>y\<close> of \<open>ys\<close>, in order, takes the next \<open>n\<close> bytes,
  converted by \<open>conv\<close>, at \<open>pix[y * s:]\<close>.
\<close>

fun rowsResult ::
  "(byte list \<Rightarrow> byte list) \<Rightarrow> nat \<Rightarrow> nat \<Rightarrow> nat list \<Rightarrow> byte list \<Rightarrow> byte list \<Rightarrow> byte list" where
  "rowsResult conv n s [] pix r = pix"
| "rowsResult conv n s (y # ys) pix r =
     rowsResult conv n s ys (blit pix (y * s) (conv (take n r))) (drop n r)"

text \<open>
  The outcome of a run of the RLE decoder that wrote no pixel out of bounds: it is not
  the panic of \<^verbatim>\<open>storePix\<close>, and a buffer it returns still has \<open>n\<close> bytes.
\<close>

definition noPixPanic :: "nat \<Rightarrow> error + ('a \<times> byte list) \<Rightarrow> bool" where
  "noPixPanic n res =
     (case res of
        Inl e \<Rightarrow> e \<noteq> Panic ''Pix: index out of range''
      | Inr (a, pix') \<Rightarrow> length pix' = n)"

text \<open>
  The number of bytes \<^verbatim>\<open>DecodeConfig\<close> reads before a palette or a pixel: the file
  header, the DIB header of the length declared at byte 14, and the three bit masks when
  the compression is \<^verbatim>\<open>BITFIELDS\<close> under the 40-byte header. The header is complete
  when the stream holds them all.
\<close>

definition headerLen :: "byte list \<Rightarrow> nat" where
  "headerLen r =
     fileHeaderLen + unat (readUint32 (drop 14 r))
       + (if readUint32 (drop 30 r) = biBitFields \<and> readUint32 (drop 14 r) = of_nat infoHeaderLen
          then 4 * 3 else 0)"

definition headerComplete :: "byte list \<Rightarrow> bool" where
  "headerComplete r \<longleftrightarrow> fileHeaderLen + 4 \<le> length r \<and> headerLen r \<le> length r"

text \<open>
  The error of \<^verbatim>\<open>io.ReadFull\<close> when the stream holds \<open>m\<close> bytes of a longer block; the
  bytes \<^verbatim>\<open>Decode\<close> reads for a row of an image that is not compressed; and, of \<open>m\<close>
  bytes of a row, those that belong to the read that fails (an 8-bit row is read in two
  blocks, the pixels and the padding).
\<close>

definition endOfInput :: "nat \<Rightarrow> error" where
  "endOfInput m = (if m = 0 then EOF else ErrUnexpectedEOF)"

definition rowBytes :: "decoder \<Rightarrow> nat" where
  "rowBytes d =
     (if d_bpp d = 1 \<or> d_bpp d = 2 \<or> d_bpp d = 4
      then smallRowLen (unat (d_bpp d)) (nat (c_Width d))
      else if d_bpp d = 8 then align4 (nat (c_Width d))
      else if d_bpp d = 16 then align4 (2 * nat (c_Width d))
      else if d_bpp d = 24 then align4 (3 * nat (c_Width d))
      else nat (c_Width d) * 4)"

definition bytesOfBlock :: "decoder \<Rightarrow> nat \<Rightarrow> nat" where
  "bytesOfBlock d m = (if d_bpp d = 8 \<and> nat (c_Width d) \<le> m then m - nat (c_Width d) else m)"

text \<open>
  For the proofs about the events of the run-length decoder: an event whose cursor
  \<^verbatim>\<open>isValid\<close> accepts, and what a run leaves when every pixel it stored was stored at
  such a cursor, a cursor moved out of the image ended it with the error
  \<^verbatim>\<open>FormatError("invalid RLE data")\<close>, and no assignment to \<^verbatim>\<open>paletted.Pix\<close> panicked.
\<close>

definition validEvent :: "nat \<Rightarrow> nat \<Rightarrow> rleEvent \<Rightarrow> bool" where
  "validEvent stride height e =
     (case e of Stored x y \<Rightarrow> isValid stride height x y | Moved x y \<Rightarrow> isValid stride height x y)"

definition cursorLog :: "nat \<Rightarrow> nat \<Rightarrow> error + 'a \<Rightarrow> rleEvent list \<Rightarrow> bool" where
  "cursorLog stride height res es \<longleftrightarrow>
     (\<forall>x y. Stored x y \<in> set es \<longrightarrow> isValid stride height x y)
     \<and> ((\<exists>x y. Moved x y \<in> set es \<and> \<not> isValid stride height x y)
          \<longrightarrow> res = Inl (FormatError ''invalid RLE data''))
     \<and> res \<noteq> Inl (Panic ''Pix: index out of range'')"

section \<open>Helper lemmas\<close>

lemma length_ge_10E:
  assumes "10 \<le> length (r :: 'a list)"
  obtains c0 c1 c2 c3 c4 c5 c6 c7 c8 c9 rest
  where "r = c0 # c1 # c2 # c3 # c4 # c5 # c6 # c7 # c8 # c9 # rest"
  using assms by (auto simp: Suc_le_length_iff eval_nat_numeral)

subsection \<open>Little-endian fields\<close>

lemma le32_inverse:
  "ucast (ucast v :: byte) OR push_bit 8 (ucast (ucast (drop_bit 8 v) :: byte))
     OR push_bit 16 (ucast (ucast (drop_bit 16 v) :: byte))
     OR push_bit 24 (ucast (ucast (drop_bit 24 v) :: byte)) = (v :: uint32)"
  (is "?w = v")
proof (rule bit_word_eqI)
  fix n :: nat
  assume "n < LENGTH(32)"
  then consider "n < 8" | "8 \<le> n" "n < 16" | "16 \<le> n" "n < 24" | "24 \<le> n" "n < 32"
    by fastforce
  then show "bit ?w n = bit v n"
    by cases (auto simp: bit_simps)
qed

lemma le16_inverse:
  "ucast (ucast v :: byte) OR push_bit 8 (ucast (ucast (drop_bit 8 v) :: byte)) = (v :: uint16)"
  by (rule bit_word_eqI) (auto simp: bit_simps)

lemma readUint32_le32 [simp]: "readUint32 (le32 v @ rest) = v"
  by (simp add: readUint32_def le32_def le32_inverse)

lemma readUint16_le16 [simp]: "readUint16 (le16 v @ rest) = v"
  by (simp add: readUint16_def le16_def le16_inverse)

lemma length_le32 [simp]: "length (le32 v) = 4"
  by (simp add: le32_def)

lemma length_le16 [simp]: "length (le16 v) = 2"
  by (simp add: le16_def)

subsection \<open>The header the encoder writes\<close>

lemma headerBytes_fields:
  assumes "hdrOK h"
  shows "length (headerBytes h) = 54"
    and "take 2 (headerBytes h @ rest) = [0x42, 0x4D]"
    and "readUint32 (drop 10 (headerBytes h @ rest)) = h_pixOffset h"
    and "readUint32 (drop 14 (headerBytes h @ rest)) = h_dibHeaderSize h"
    and "readUint32 (drop 18 (headerBytes h @ rest)) = h_width h"
    and "readUint32 (drop 22 (headerBytes h @ rest)) = h_height h"
    and "readUint16 (drop 26 (headerBytes h @ rest)) = h_colorPlane h"
    and "readUint16 (drop 28 (headerBytes h @ rest)) = h_bpp h"
    and "readUint32 (drop 30 (headerBytes h @ rest)) = h_compression h"
    and "readUint32 (drop 46 (headerBytes h @ rest)) = h_colorUse h"
  using assms by (simp_all add: headerBytes_def hdrOK_def)

lemma hdrOK_initHeader [simp]: "hdrOK (initHeader dX dY)"
  by (simp add: hdrOK_def initHeader_def)

lemma hdrOK_setSizes [simp]: "hdrOK (setSizes h bits n k) = hdrOK h"
  by (simp add: hdrOK_def setSizes_def)

lemma hdrOK_colorUse [simp]: "hdrOK (h\<lparr>h_colorUse := c\<rparr>) = hdrOK h"
  by (simp add: hdrOK_def)

lemma h_bpp_setSizes [simp]: "h_bpp (setSizes h bits n k) = bits"
  by (simp add: setSizes_def)

lemma selectFormat_hdrOK:
  "selectFormat m h0 dX dY = Inr (h, step, pal, opq) \<Longrightarrow> hdrOK h0 \<Longrightarrow> hdrOK h"
  by (cases m) (auto simp: selectFormat_def Let_def split: if_splits)

lemma selectFormat_bpp:
  "selectFormat m h0 dX dY = Inr (h, step, pal, opq) \<Longrightarrow>
   h_bpp h = (case m of
       Gray pix stride bounds \<Rightarrow> 8
     | Paletted pix stride bounds p \<Rightarrow> palettedBpp (length p)
     | RGBA pix stride bounds \<Rightarrow> if Opaque m then 24 else 32
     | NRGBA pix stride bounds \<Rightarrow> if Opaque m then 24 else 32
     | Other bounds at \<Rightarrow> 24)"
  by (cases m) (auto simp: selectFormat_def Let_def split: if_splits)

lemma Encode_InrE:
  assumes "Encode m = Inr bs"
  obtains h step pal opq rows where
    "selectFormat m (initHeader (Dx (Rect m)) (Dy (Rect m))) (nat (Dx (Rect m))) (nat (Dy (Rect m)))
       = Inr (h, step, pal, opq)"
    "bs = headerBytes h @ (case pal of None \<Rightarrow> [] | Some p \<Rightarrow> p) @ rows"
    "0 \<le> Dx (Rect m)" "0 \<le> Dy (Rect m)"
  using assms
  by (auto simp: Encode_def Let_def split: if_splits sum.splits)

subsection \<open>Rows of the encoder\<close>

lemma concatE_Inr:
  "\<forall>x\<in>set xs. \<exists>bs. f x = Inr bs \<Longrightarrow>
   concatE f xs = Inr (concat (map (\<lambda>x. projr (f x)) xs))"
  by (induction xs) (auto split: sum.splits)

lemma concatE_InrD:
  "concatE f xs = Inr out \<Longrightarrow> x \<in> set xs \<Longrightarrow> \<exists>bs. f x = Inr bs"
  by (induction xs arbitrary: out) (auto split: sum.splits)

lemma concatE_Inr_iff:
  "concatE f xs = Inr out \<longleftrightarrow>
     (\<forall>x\<in>set xs. \<exists>bs. f x = Inr bs) \<and> out = concat (map (\<lambda>x. projr (f x)) xs)"
  using concatE_Inr [of xs f] concatE_InrD [of f xs out] by auto

lemma blit_0 [simp]: "blit buf 0 row = row @ drop (length row) buf"
  by (simp add: blit_def)

lemma length_concat_const:
  "(\<And>x. x \<in> set xs \<Longrightarrow> length (f x) = c) \<Longrightarrow> length (concat (map f xs)) = c * length xs"
  by (induction xs) auto

lemma encodeRows_Inr:
  assumes len: "\<And>i bs. px i = Inr bs \<Longrightarrow> length bs = c"
    and ok: "\<And>y k. y \<in> set ys \<Longrightarrow> k < dx \<Longrightarrow> \<exists>bs. px (y * stride + 4 * k) = Inr bs"
    and buf: "c * dx \<le> length buf"
  shows "encodeRows px dx stride ys buf =
     Inr (concat (map (\<lambda>y. rowsOf px dx stride y @ drop (c * dx) buf) ys))"
  using ok buf
proof (induction ys arbitrary: buf)
  case Nil
  then show ?case by simp
next
  case (Cons y ys)
  have row: "concatE px (map (\<lambda>k. y * stride + 0 + 4 * k) [0..<dx]) = Inr (rowsOf px dx stride y)"
    using Cons.prems(1) [of y] by (simp add: concatE_Inr_iff rowsOf_def comp_def)
  have "length (projr (px (y * stride + 4 * k))) = c" if "k < dx" for k
    using Cons.prems(1) [of y k] that len by fastforce
  then have lrow: "length (rowsOf px dx stride y) = c * dx"
    unfolding rowsOf_def by (subst length_concat_const [where c = c]) auto
  have "encodeRows px dx stride ys (rowsOf px dx stride y @ drop (c * dx) buf) =
     Inr (concat (map (\<lambda>y'. rowsOf px dx stride y' @
         drop (c * dx) (rowsOf px dx stride y @ drop (c * dx) buf)) ys))"
    using Cons.prems lrow by (intro Cons.IH) auto
  then show ?case
    using row lrow Cons.prems(2) by simp
qed

lemma encodeRows_InrD:
  assumes len: "\<And>i bs. px i = Inr bs \<Longrightarrow> length bs = c"
    and "encodeRows px dx stride ys buf = Inr out"
  shows "(\<forall>y\<in>set ys. \<forall>k<dx. \<exists>bs. px (y * stride + 4 * k) = Inr bs)
         \<and> (ys \<noteq> [] \<longrightarrow> c * dx \<le> length buf)"
  using assms(2)
proof (induction ys arbitrary: buf out)
  case Nil
  then show ?case by simp
next
  case (Cons y ys)
  from Cons.prems obtain row rest where
    row: "concatE px (map (\<lambda>k. y * stride + 0 + 4 * k) [0..<dx]) = Inr row"
    and le: "length row \<le> length buf"
    and rest: "encodeRows px dx stride ys (blit buf 0 row) = Inr rest"
    by (auto split: sum.splits if_splits)
  have ok: "\<forall>k<dx. \<exists>bs. px (y * stride + 4 * k) = Inr bs"
    using row by (auto simp: concatE_Inr_iff)
  have "row = rowsOf px dx stride y"
    using row by (simp add: concatE_Inr_iff rowsOf_def comp_def)
  moreover have "length (projr (px (y * stride + 4 * k))) = c" if "k < dx" for k
    using ok that len by fastforce
  ultimately have lrow: "length row = c * dx"
    unfolding rowsOf_def by (simp, subst length_concat_const [where c = c]) auto
  show ?case
    using Cons.IH [OF rest] ok le lrow by auto
qed


subsection \<open>Bytes and 32-bit words\<close>

lemma unat_byte_less: "unat (c :: byte) < 256"
  using unsigned_less [of c, where 'a = nat] by simp

lemma unat_ucast_byte32 [simp]: "unat (ucast (c :: byte) :: uint32) = unat c"
proof -
  have "unat c < 2 ^ 32" using unat_byte_less [of c] by simp
  then show ?thesis by (simp add: unsigned_ucast_eq take_bit_nat_eq_self)
qed

lemma unpremultiply_eq:
  "unpremultiply c (ucast a) = of_nat (scaledDiv (unat c) (unat (a :: byte)))"
proof -
  have "unat c * 65535 < 2 ^ 32"
    using unat_byte_less [of c] by simp
  then have m: "unat (ucast c * 0xffff :: uint32) = unat c * 65535"
    by (simp add: unat_word_ariths)
  have u: "unat (drop_bit 8 ((ucast c * 0xffff) div (ucast a :: uint32)))
          = (unat c * 65535 div unat a) div 256"
    by (simp add: unat_drop_bit_eq unat_div m drop_bit_eq_div)
  have "unpremultiply c (ucast a)
          = of_nat (unat (drop_bit 8 ((ucast c * 0xffff) div (ucast a :: uint32))))"
    by (simp add: unpremultiply_def)
  also have "\<dots> = of_nat ((unat c * 65535 div unat a) div 256)"
    by (simp only: u)
  finally show ?thesis
    by (simp add: scaledDiv_def)
qed


lemma ucast_byte32_eq_0 [simp]: "(ucast (a :: byte) :: uint32) = 0 \<longleftrightarrow> a = 0"
  by (simp add: word_unat_eq_iff)

lemma ucast_byte32_eq_ff [simp]: "(ucast (a :: byte) :: uint32) = 0xff \<longleftrightarrow> a = 0xff"
  by (simp add: word_unat_eq_iff)

lemma ucast_byte32_byte [simp]: "(ucast (ucast (a :: byte) :: uint32) :: byte) = a"
  by (rule bit_word_eqI) (auto simp: bit_simps)

lemma rgbaPixel_straight:
  "i + 3 < length pix \<Longrightarrow>
   rgbaPixel pix i = Inr (straightAlpha (pix ! i) (pix ! (i + 1)) (pix ! (i + 2)) (pix ! (i + 3)))"
  by (simp add: rgbaPixel_def straightAlpha_def Let_def unpremultiply_eq)

lemma rgbaPixel_InrD: "rgbaPixel pix i = Inr bs \<Longrightarrow> i + 3 < length pix \<and> length bs = 4"
  by (auto simp: rgbaPixel_def Let_def split: if_splits)

lemma scaledDiv_less: "c \<le> a \<Longrightarrow> 0 < a \<Longrightarrow> scaledDiv c a < 256"
proof -
  assume "c \<le> a" "0 < a"
  then have "c * 65535 \<le> 65535 * a" by simp
  then have "c * 65535 div a \<le> 65535 * a div a" by (rule div_le_mono)
  with \<open>0 < a\<close> have "c * 65535 div a \<le> 65535" by simp
  then show ?thesis by (simp add: scaledDiv_def less_mult_imp_div_less)
qed

subsection \<open>Row lengths and the 8-bit rows\<close>

lemma and_not_3_int: "(k :: int) AND NOT 3 = k div 4 * 4"
proof -
  have *: "Suc (Suc (n - 2)) = n" if "2 \<le> n" for n :: nat
    using that by arith
  have "k AND NOT (mask 2) = push_bit 2 (drop_bit 2 k)"
    by (rule bit_eqI) (auto simp: bit_simps * not_less)
  moreover have "(mask 2 :: int) = 3" by (simp add: mask_eq_exp_minus_1)
  ultimately have "k AND NOT 3 = push_bit 2 (drop_bit 2 k)" by simp
  then show ?thesis by (simp add: push_bit_eq_mult drop_bit_eq_div)
qed

lemma align4_eq: "align4 n = (n + 3) div 4 * 4"
proof -
  have "int n + 3 = int (n + 3)" by simp
  then show ?thesis
    unfolding align4_def and_not_3_int
    by (metis nat_int of_nat_mult of_nat_numeral zdiv_int)
qed

lemma align4_ge: "n \<le> align4 n"
  unfolding align4_eq by presburger

lemma align4_mod4: "align4 n mod 4 = 0"
  unfolding align4_eq by simp


lemma length_grayPalette [simp]: "length grayPalette = 1024"
  unfolding grayPalette_def by (subst length_concat_const [where c = 4]) auto


subsection \<open>What a successful header parse establishes\<close>

lemma resolveCompression_InrD:
  assumes "resolveCompression d c infoLen b r = Inr (d', c', ml, r')"
  shows "d_bpp d' = d_bpp d" and "d_topDown d' = d_topDown d"
    and "d_rle d' \<longrightarrow> d_rle d \<or> d_bpp d = 4 \<or> d_bpp d = 8"
    and "c_ColorModel d' = c_ColorModel d"
  using assms
  by (auto simp: resolveCompression_def Let_def split: if_splits sum.splits)

lemma configByDepth_InrD:
  assumes "configByDepth d offset infoLen ml colors w h r = Inr (d', r')"
  shows "d_bpp d' = d_bpp d" and "d_rle d' = d_rle d" and "d_topDown d' = d_topDown d"
    and "d_noAlpha d' = d_noAlpha d" and "d_rgb565 d' = d_rgb565 d"
    and "c_Width d' = w" and "c_Height d' = h"
    and "(d_bpp d \<in> {1, 2, 4, 8} \<and> (\<exists>pal. c_ColorModel d' = PaletteModel pal))
         \<or> (d_bpp d \<in> {16, 24, 32} \<and> c_ColorModel d' = RGBAModel)"
  using assms
  by (auto simp: configByDepth_def Let_def split: if_splits sum.splits)

lemma decoder_DecodeConfig_InrD:
  assumes "decoder_DecodeConfig r = Inr (d, r')"
  shows "0 \<le> c_Width d" and "0 \<le> c_Height d"
    and "(d_bpp d \<in> {1, 2, 4, 8} \<and> (\<exists>pal. c_ColorModel d = PaletteModel pal))
         \<or> (d_bpp d \<in> {16, 24, 32} \<and> c_ColorModel d = RGBAModel)"
    and "d_rle d \<longrightarrow> d_bpp d = 4 \<or> d_bpp d = 8"
    and "c_Width d < 2 ^ 31" and "c_Height d \<le> 2 ^ 31"
proof -
  from assms obtain offset infoLen b r2 where
    p: "parseInfoHeader offset infoLen b r2 = Inr (d, r')"
    unfolding decoder_DecodeConfig_def Let_def
    by (auto split: sum.splits if_splits prod.splits)
  let ?h0 = "sint (readUint32 (drop 22 b))"
  let ?d0 = "if ?h0 < 0 then newDecoder\<lparr>d_topDown := True\<rparr> else newDecoder"
  from p obtain d2 c' ml r3 where
    w: "0 \<le> sint (readUint32 (drop 18 b))"
    and rc: "resolveCompression (?d0\<lparr>d_bpp := readUint16 (drop 28 b)\<rparr>)
               (readUint32 (drop 30 b)) infoLen b r2 = Inr (d2, c', ml, r3)"
    and cd: "configByDepth d2 offset infoLen ml
               (readUint32 (drop 46 b)) (sint (readUint32 (drop 18 b)))
               (if ?h0 < 0 then - ?h0 else ?h0) r3 = Inr (d, r')"
    unfolding parseInfoHeader_def Let_def
    by (auto split: sum.splits if_splits prod.splits)
  note R = resolveCompression_InrD [OF rc]
  note C = configByDepth_InrD [OF cd]
  show "0 \<le> c_Width d" using w C(6) by simp
  show "0 \<le> c_Height d" using C(7) by simp
  show "(d_bpp d \<in> {1, 2, 4, 8} \<and> (\<exists>pal. c_ColorModel d = PaletteModel pal))
         \<or> (d_bpp d \<in> {16, 24, 32} \<and> c_ColorModel d = RGBAModel)"
    using C(8) C(1) by simp
  show "d_rle d \<longrightarrow> d_bpp d = 4 \<or> d_bpp d = 8"
    using R(3) R(1) C(1,2) by (auto simp: newDecoder_def split: if_splits)
  show "c_Width d < 2 ^ 31"
    using C(6) sint_lt [of "readUint32 (drop 18 b)"] by simp
  show "c_Height d \<le> 2 ^ 31"
    using C(7) sint_lt [of "readUint32 (drop 22 b)"] sint_ge [of "readUint32 (drop 22 b)"]
    by (simp split: if_splits)
qed


lemma NewPix_Inr:
  "k * w < 2 ^ 64 \<Longrightarrow> k * w * h < 2 ^ 63 \<Longrightarrow> NewPix nm k w h = Inr (replicate (k * w * h) 0)"
  by (simp add: NewPix_def)

lemma NewPix_header:
  assumes "decoder_DecodeConfig r = Inr (d, r')" and "k \<le> 4"
    and "k * nat (c_Width d) * nat (c_Height d) < 2 ^ 63"
  shows "NewPix nm k (nat (c_Width d)) (nat (c_Height d))
           = Inr (replicate (k * nat (c_Width d) * nat (c_Height d)) 0)"
proof -
  have "nat (c_Width d) < 2 ^ 31"
    using decoder_DecodeConfig_InrD(1,5) [OF assms(1)] by simp
  then have "k * nat (c_Width d) \<le> 4 * 2 ^ 31"
    using assms(2) by (intro mult_mono) simp_all
  then have "k * nat (c_Width d) < 2 ^ 64" by simp
  then show ?thesis using assms(3) by (rule NewPix_Inr)
qed

lemma Decode_zero_area:
  assumes cfg: "decoder_DecodeConfig r = Inr (d, r')"
    and z: "c_Width d = 0 \<or> c_Height d = 0"
  shows "\<exists>m. Decode r = Inr (m, r') \<and>
           ((\<exists>pal. m = Paletted [] (nat (c_Width d)) (Rect0 (c_Width d) (c_Height d)) pal)
            \<or> m = RGBA [] (4 * nat (c_Width d)) (Rect0 (c_Width d) (c_Height d))
            \<or> m = NRGBA [] (4 * nat (c_Width d)) (Rect0 (c_Width d) (c_Height d)))"
proof -
  note D = decoder_DecodeConfig_InrD [OF cfg]
  have z': "nat (c_Width d) = 0 \<or> nat (c_Height d) = 0" using z by auto
  have np: "NewPix nm k (nat (c_Width d)) (nat (c_Height d)) = Inr []" if "k \<le> 4" for nm k
    using NewPix_header [OF cfg that, of nm] z' by auto
  from D(3) show ?thesis
  proof
    assume "d_bpp d \<in> {1, 2, 4, 8} \<and> (\<exists>pal. c_ColorModel d = PaletteModel pal)"
    then obtain pal where b: "d_bpp d \<in> {1, 2, 4, 8}" and pal: "c_ColorModel d = PaletteModel pal"
      by blast
    have "decoder_Decode d r' =
            Inr (Paletted [] (nat (c_Width d)) (Rect0 (c_Width d) (c_Height d)) pal, r')"
      using b pal z z'
      by (auto simp: decoder_Decode_def decodeRLE_def decodeSmallPaletted_def decodePaletted_def
            assertPalette_def Let_def np)
    then show ?thesis using cfg by (simp add: Decode_def)
  next
    assume a: "d_bpp d \<in> {16, 24, 32} \<and> c_ColorModel d = RGBAModel"
    then have nr: "\<not> d_rle d" using D(4) by auto
    have "decoder_Decode d r' = Inr (RGBA [] (4 * nat (c_Width d)) (Rect0 (c_Width d) (c_Height d)), r')
          \<or> decoder_Decode d r' = Inr (NRGBA [] (4 * nat (c_Width d)) (Rect0 (c_Width d) (c_Height d)), r')"
      using a nr z z'
      by (auto simp: decoder_Decode_def decodeRGB5x5_def decodeRGB_def decodeNRGBA_def Let_def np)
    then show ?thesis using cfg by (auto simp: Decode_def)
  qed
qed

lemma palettedBpp_cover: "n \<le> 256 \<Longrightarrow> n \<le> 2 ^ unat (palettedBpp n)"
  by (auto simp: palettedBpp_def)

lemma selectFormat_Inr:
  assumes "paletteLenOK m"
  shows "\<exists>h step opq. selectFormat m (initHeader dX dY) dx dy
            = Inr (h, step, if paletteOf m = [] then None else Some (paletteOf m), opq)
          \<and> hdrOK h \<and> h_width h = word_of_int dX \<and> h_height h = word_of_int dY"
proof (cases m)
  case (Paletted pix stride bounds pal)
  with assms have l: "0 < length pal" "length pal \<le> 256" by (simp_all add: paletteLenOK_def)
  have t: "take (if length pal < 2 ^ unat (palettedBpp (length pal)) then length pal
                 else 2 ^ unat (palettedBpp (length pal))) pal = pal"
    using palettedBpp_cover [OF l(2)] by auto
  have ne: "concat (map paletteEntry pal) \<noteq> []"
    using l(1) by (cases pal) (auto simp: paletteEntry_def split: prod.splits)
  show ?thesis
    using l t ne unfolding Paletted
    by (auto simp: selectFormat_def Let_def paletteOf_def setSizes_def initHeader_def hdrOK_def)
next
  case (Gray pix stride bounds)
  have "grayPalette \<noteq> []" using length_grayPalette by fastforce
  then show ?thesis
    unfolding Gray
    by (auto simp: selectFormat_def Let_def paletteOf_def setSizes_def initHeader_def hdrOK_def)
qed (auto simp: selectFormat_def Let_def paletteOf_def setSizes_def initHeader_def hdrOK_def)

lemma Encode_zero_area:
  assumes "0 \<le> Dx (Rect m)" "0 \<le> Dy (Rect m)" "Dx (Rect m) = 0 \<or> Dy (Rect m) = 0"
    and "paletteLenOK m"
  shows "\<exists>h. Encode m = Inr (headerBytes h @ paletteOf m) \<and> length (headerBytes h) = 54
           \<and> h_width h = word_of_int (Dx (Rect m)) \<and> h_height h = word_of_int (Dy (Rect m))"
proof -
  from selectFormat_Inr [OF assms(4), of "Dx (Rect m)" "Dy (Rect m)" "nat (Dx (Rect m))" "nat (Dy (Rect m))"]
  obtain h step opq where
    sel: "selectFormat m (initHeader (Dx (Rect m)) (Dy (Rect m))) (nat (Dx (Rect m))) (nat (Dy (Rect m)))
            = Inr (h, step, if paletteOf m = [] then None else Some (paletteOf m), opq)"
    and h: "hdrOK h" "h_width h = word_of_int (Dx (Rect m))" "h_height h = word_of_int (Dy (Rect m))"
    by blast
  have "Encode m = Inr (headerBytes h @ paletteOf m)"
    using assms(1-3) sel by (auto simp: Encode_def Let_def)
  then show ?thesis using h headerBytes_fields(1) [OF h(1)] by blast
qed

subsection \<open>Reading the header from the stream\<close>

lemma ReadFull_Inr_iff:
  "ReadFull n r = Inr (b, r') \<longleftrightarrow> n \<le> length r \<and> b = take n r \<and> r' = drop n r"
  by (auto simp: ReadFull_def)

lemma ReadFull_Inl_iff:
  "ReadFull n r = Inl e \<longleftrightarrow>
     length r < n \<and> e = (if r = [] then EOF else ErrUnexpectedEOF)"
  by (auto simp: ReadFull_def)

lemma readUint32_take: "k + 4 \<le> n \<Longrightarrow> readUint32 (drop k (take n r)) = readUint32 (drop k r)"
  by (simp add: readUint32_def drop_take)

lemma readUint16_take: "k + 2 \<le> n \<Longrightarrow> readUint16 (drop k (take n r)) = readUint16 (drop k r)"
  by (simp add: readUint16_def drop_take)

lemma infoLen_cases:
  "(il :: uint32) = of_nat infoHeaderLen \<or> il = of_nat v4InfoHeaderLen \<or> il = of_nat v5InfoHeaderLen
   \<longleftrightarrow> il = 40 \<or> il = 108 \<or> il = 124"
  by (simp add: infoHeaderLen_def v4InfoHeaderLen_def v5InfoHeaderLen_def)

lemma decoder_DecodeConfig_InrE:
  assumes "decoder_DecodeConfig r = Inr (d, r')"
  obtains n where "n = 40 \<or> n = 108 \<or> n = 124"
    and "readUint32 (drop 14 r) = of_nat n" and "14 + n \<le> length r" and "take 2 r = [0x42, 0x4D]"
    and "parseInfoHeader (readUint32 (drop 10 r)) (of_nat n) (take (14 + n) r) (drop (14 + n) r)
           = Inr (d, r')"
proof -
  from assms obtain b1 r1 where r1: "ReadFull (fileHeaderLen + 4) r = Inr (b1, r1)"
    by (auto simp: decoder_DecodeConfig_def split: sum.splits)
  then have l18: "18 \<le> length r" and b1: "b1 = take 18 r" and r1': "r1 = drop 18 r"
    by (simp_all add: ReadFull_Inr_iff fileHeaderLen_def)
  let ?il = "readUint32 (drop 14 b1)"
  have il: "?il = readUint32 (drop 14 r)" and off: "readUint32 (drop 10 b1) = readUint32 (drop 10 r)"
    unfolding b1 by (simp_all add: readUint32_take)
  from assms r1 have sig: "take 2 b1 = [0x42, 0x4D]"
    and ilc: "?il = 40 \<or> ?il = 108 \<or> ?il = 124"
    by (auto simp: decoder_DecodeConfig_def Let_def infoHeaderLen_def v4InfoHeaderLen_def
          v5InfoHeaderLen_def split: sum.splits if_splits)
  from assms r1 sig ilc obtain b2 r2 where
    r2: "ReadFull (unat ?il - 4) r1 = Inr (b2, r2)"
    and p: "parseInfoHeader (readUint32 (drop 10 b1)) ?il (b1 @ b2) r2 = Inr (d, r')"
    by (auto simp: decoder_DecodeConfig_def Let_def infoHeaderLen_def v4InfoHeaderLen_def
          v5InfoHeaderLen_def split: sum.splits if_splits)
  define n where "n = unat ?il"
  have n: "n = 40 \<or> n = 108 \<or> n = 124" and iln: "?il = of_nat n"
    using ilc by (auto simp: n_def)
  from r2 have l2: "n - 4 \<le> length r1" and b2: "b2 = take (n - 4) r1" and r2': "r2 = drop (n - 4) r1"
    by (simp_all add: ReadFull_Inr_iff n_def)
  have len: "14 + n \<le> length r" using l2 l18 n by (auto simp: r1')
  have "b1 @ b2 = take (14 + n) r"
    using n l18 unfolding b1 b2 r1'
    by (auto simp: take_add [of 18, symmetric])
  moreover have "r2 = drop (14 + n) r"
    using n unfolding r2' r1' by auto
  moreover have "take 2 r = [0x42, 0x4D]" using sig unfolding b1 by simp
  ultimately show ?thesis
    using that [of n] n iln il off p len by simp
qed


lemma parseInfoHeader_InrE:
  assumes "parseInfoHeader offset infoLen b r = Inr (d, r')"
  obtains d2 ml r3 where
    "0 \<le> sint (readUint32 (drop 18 b))" and "readUint16 (drop 26 b) = 1"
    and "resolveCompression (headerDecoder b) (readUint32 (drop 30 b)) infoLen b r
           = Inr (d2, biRGB, ml, r3)"
    and "configByDepth d2 offset infoLen ml (readUint32 (drop 46 b))
           (sint (readUint32 (drop 18 b))) \<bar>sint (readUint32 (drop 22 b))\<bar> r3 = Inr (d, r')"
  using assms unfolding parseInfoHeader_def Let_def headerDecoder_def
  by (auto split: sum.splits if_splits prod.splits simp: abs_if)

lemma length_readPalette [simp]: "length (readPalette b n) = n"
  by (simp add: readPalette_def)

lemma configByDepth_palette:
  assumes "configByDepth d offset infoLen ml colors w h r = Inr (d', r')"
    and "d_bpp d \<in> {1, 2, 4, 8}"
  shows "\<exists>pal. c_ColorModel d' = PaletteModel pal \<and> length pal \<le> 256
           \<and> length pal = (if colors = 0 then 2 ^ unat (d_bpp d) else unat colors)"
  using assms
  by (auto simp: configByDepth_def Let_def split: if_splits sum.splits)

subsection \<open>The loop over the rows of the decoder\<close>

lemma row_le: "y < h \<Longrightarrow> y * s + s \<le> h * (s :: nat)"
proof -
  assume "y < h"
  then have "Suc y * s \<le> h * s" by (intro mult_le_mono1) simp
  then show ?thesis by simp
qed

lemma row_bound: "y < h \<Longrightarrow> x < s \<Longrightarrow> y * s + x < h * (s :: nat)"
  using row_le [of y h s] by simp

lemma row_disjoint:
  assumes "y \<noteq> y'" and "x < s"
  shows "\<not> (y' * s \<le> y * s + x \<and> y * s + x < y' * s + (s :: nat))"
proof (cases "y < y'")
  case True
  then have "y * s + x < y' * s" using row_bound [of y y' x s] assms(2) by simp
  then show ?thesis by simp
next
  case False
  with assms(1) have "y' < y" by simp
  then have "y' * s + s \<le> y * s" using row_le [of y' y s] by simp
  then show ?thesis by simp
qed

lemma length_blit: "off + length src \<le> length dst \<Longrightarrow> length (blit dst off src) = length dst"
  by (simp add: blit_def)

lemma blit_nth:
  "off + length src \<le> length dst \<Longrightarrow> i < length dst \<Longrightarrow>
   blit dst off src ! i = (if off \<le> i \<and> i < off + length src then src ! (i - off) else dst ! i)"
  by (auto simp: blit_def nth_append)

lemma decodeRows_eq:
  "n * length ys \<le> length r \<Longrightarrow>
   decodeRows conv n w ys pix r = Inr (rowsResult conv n (4 * w) ys pix r, drop (n * length ys) r)"
proof (induction ys arbitrary: pix r)
  case Nil
  then show ?case by simp
next
  case (Cons y ys)
  then have "n \<le> length r" and "n * length ys \<le> length (drop n r)" by simp_all
  then show ?case
    using Cons.IH [of "drop n r"] by (simp add: ReadFull_def add.commute)
qed

lemma rowsResult_length:
  assumes "\<forall>y\<in>set ys. y < h" and "length pix = h * s"
    and "\<And>b. length b = n \<Longrightarrow> length (conv b) = s" and "n * length ys \<le> length r"
  shows "length (rowsResult conv n s ys pix r) = h * s"
  using assms(1,2,4)
proof (induction ys arbitrary: pix r)
  case Nil
  then show ?case by simp
next
  case (Cons y ys)
  then have n: "n \<le> length r" and r: "n * length ys \<le> length (drop n r)" and y: "y < h" by simp_all
  have "length (conv (take n r)) = s" using n by (simp add: assms(3))
  then have "length (blit pix (y * s) (conv (take n r))) = h * s"
    using row_le [OF y, of s] Cons.prems(2) by (simp add: length_blit)
  then show ?case using Cons.IH [OF _ _ r] Cons.prems(1) by simp
qed

lemma rowsResult_other:
  assumes "\<forall>y\<in>set ys. y < h" and "length pix = h * s"
    and "\<And>b. length b = n \<Longrightarrow> length (conv b) = s" and "n * length ys \<le> length r"
    and "y \<notin> set ys" and "y < h" and "x < s"
  shows "rowsResult conv n s ys pix r ! (y * s + x) = pix ! (y * s + x)"
  using assms(1,2,4,5)
proof (induction ys arbitrary: pix r)
  case Nil
  then show ?case by simp
next
  case (Cons y' ys)
  then have n: "n \<le> length r" and r: "n * length ys \<le> length (drop n r)"
    and y': "y' < h" and ne: "y \<noteq> y'" by auto
  have lc: "length (conv (take n r)) = s" using n by (simp add: assms(3))
  have lb: "length (blit pix (y' * s) (conv (take n r))) = h * s"
    using row_le [OF y', of s] Cons.prems(2) lc by (simp add: length_blit)
  have "rowsResult conv n s ys (blit pix (y' * s) (conv (take n r))) (drop n r) ! (y * s + x)
          = blit pix (y' * s) (conv (take n r)) ! (y * s + x)"
    using Cons.prems by (intro Cons.IH [OF _ lb r]) auto
  also have "\<dots> = pix ! (y * s + x)"
    using row_le [OF y', of s] Cons.prems(2) lc row_bound [OF assms(6,7)]
      row_disjoint [OF ne assms(7)]
    by (subst blit_nth) auto
  finally show ?case by simp
qed

lemma rowsResult_row:
  assumes "distinct ys" and "\<forall>y\<in>set ys. y < h" and "length pix = h * s"
    and "\<And>b. length b = n \<Longrightarrow> length (conv b) = s" and "n * length ys \<le> length r"
    and "k < length ys" and "x < s"
  shows "rowsResult conv n s ys pix r ! (ys ! k * s + x) = conv (take n (drop (k * n) r)) ! x"
  using assms(1,2,3,5,6)
proof (induction ys arbitrary: pix r k)
  case Nil
  then show ?case by simp
next
  case (Cons y ys)
  then have n: "n \<le> length r" and r: "n * length ys \<le> length (drop n r)"
    and y: "y < h" and d: "distinct ys" "y \<notin> set ys" and b: "\<forall>y\<in>set ys. y < h" by auto
  have lc: "length (conv (take n r)) = s" using n by (simp add: assms(4))
  have lb: "length (blit pix (y * s) (conv (take n r))) = h * s"
    using row_le [OF y, of s] Cons.prems(3) lc by (simp add: length_blit)
  show ?case
  proof (cases k)
    case 0
    have "rowsResult conv n s ys (blit pix (y * s) (conv (take n r))) (drop n r) ! (y * s + x)
            = blit pix (y * s) (conv (take n r)) ! (y * s + x)"
      using rowsResult_other [OF b lb assms(4) r d(2) y assms(7)] by simp
    also have "\<dots> = conv (take n r) ! x"
      using row_le [OF y, of s] Cons.prems(3) lc row_bound [OF y assms(7)] assms(7)
      by (subst blit_nth) auto
    finally show ?thesis using 0 by simp
  next
    case (Suc k')
    then have "k' < length ys" using Cons.prems(5) by simp
    from Cons.IH [OF d(1) b lb r this]
    show ?thesis using Suc by (simp add: add.commute)
  qed
qed


lemma concat_map_nth:
  assumes "\<And>i. i < w \<Longrightarrow> length (f i) = c" and "x < w" and "j < c"
  shows "concat (map f [0..<w]) ! (c * x + j) = f x ! j"
  using assms
proof (induction w)
  case 0
  then show ?case by simp
next
  case (Suc w)
  have l: "length (concat (map f [0..<w])) = c * w"
    using Suc.prems(1) by (subst length_concat_const [where c = c]) auto
  show ?case
  proof (cases "x < w")
    case True
    then have "c * x + j < c * w" using row_bound [of x w j c] Suc.prems(3) by (simp add: mult.commute)
    then show ?thesis using Suc.IH [OF _ True Suc.prems(3)] Suc.prems(1) l by (simp add: nth_append)
  next
    case False
    with Suc.prems(2) have "x = w" by simp
    then show ?thesis using l by (simp add: nth_append)
  qed
qed

lemma rowOrder_props [simp]:
  "distinct (rowOrder td h)" "set (rowOrder td h) = {0..<h}" "length (rowOrder td h) = h"
  by (auto simp: rowOrder_def)

lemma rowOrder_nth_ex:
  assumes "y < h"
  obtains k where "k < length (rowOrder td h)" and "rowOrder td h ! k = y"
proof -
  from assms have "y \<in> set (rowOrder td h)" by simp
  then show ?thesis unfolding in_set_conv_nth using that by blast
qed

lemma length_nrgbaRow [simp]: "length (nrgbaRow na w p) = 4 * w"
  unfolding nrgbaRow_def by (subst length_concat_const [where c = 4]) auto

lemma nrgbaRow_nth:
  "x < w \<Longrightarrow> j < 4 \<Longrightarrow>
   nrgbaRow na w p ! (4 * x + j) =
     [p ! (4 * x + 2), p ! (4 * x + 1), p ! (4 * x + 0), if na then 0xFF else p ! (4 * x + 3)] ! j"
  unfolding nrgbaRow_def by (subst concat_map_nth [where c = 4]) auto

lemma decoder_DecodeConfig_eq:
  assumes "take 2 r = [0x42, 0x4D]" and "readUint32 (drop 14 r) = of_nat n"
    and "n = 40 \<or> n = 108 \<or> n = 124" and "14 + n \<le> length r"
  shows "decoder_DecodeConfig r =
     parseInfoHeader (readUint32 (drop 10 r)) (of_nat n) (take (14 + n) r) (drop (14 + n) r)"
proof -
  have l18: "18 \<le> length r" using assms(3,4) by auto
  have r1: "ReadFull (fileHeaderLen + 4) r = Inr (take 18 r, drop 18 r)"
    using l18 by (simp add: ReadFull_def fileHeaderLen_def)
  have il: "readUint32 (drop 14 (take 18 r)) = of_nat n"
    using assms(2) by (simp add: readUint32_take)
  have off: "readUint32 (drop 10 (take 18 r)) = readUint32 (drop 10 r)"
    by (simp add: readUint32_take)
  have un: "unat (of_nat n :: uint32) = n" using assms(3) by auto
  have r2: "ReadFull (n - 4) (drop 18 r) = Inr (take (n - 4) (drop 18 r), drop (n - 4) (drop 18 r))"
    using assms(3,4) by (auto simp: ReadFull_def)
  have b: "take 18 r @ take (n - 4) (drop 18 r) = take (14 + n) r"
    using assms(3) by (auto simp: take_add [of 18, symmetric])
  have d: "n - 4 + 18 = 14 + n"
    using assms(3) by auto
  have sig: "take 2 (take 18 r) = [0x42, 0x4D]" using assms(1) by simp
  have ok: "\<not> ((of_nat n :: uint32) \<noteq> of_nat infoHeaderLen \<and> (of_nat n :: uint32) \<noteq> of_nat v4InfoHeaderLen
                \<and> (of_nat n :: uint32) \<noteq> of_nat v5InfoHeaderLen)"
    using assms(3) by (auto simp: infoHeaderLen_def v4InfoHeaderLen_def v5InfoHeaderLen_def)
  show ?thesis
    unfolding decoder_DecodeConfig_def r1
    using sig ok by (auto simp: Let_def il off un r2 b d simp del: of_nat_numeral)
qed


lemma decodeNRGBA_noAlpha:
  assumes d: "c_Width d = int w" "c_Height d = int h" "d_noAlpha d"
    and data: "4 * w * h \<le> length r"
    and fits: "4 * w < 2 ^ 64" "4 * w * h < 2 ^ 63"
  shows "\<exists>pix. decodeNRGBA d r = Inr (NRGBA pix (4 * w) (Rect0 (int w) (int h)), drop (4 * w * h) r)
           \<and> length pix = 4 * w * h
           \<and> (\<forall>y<h. \<forall>x<w. pix ! (y * (4 * w) + 4 * x + 3) = 0xFF)"
proof (cases "w = 0 \<or> h = 0")
  case True
  then show ?thesis using d NewPix_Inr [OF fits, of "''NRGBA''"] by (auto simp: decodeNRGBA_def Let_def)
next
  case False
  let ?ys = "rowOrder (d_topDown d) h"
  let ?conv = "nrgbaRow True w"
  let ?buf = "replicate (4 * w * h) (0 :: byte)"
  let ?pix = "rowsResult ?conv (w * 4) (4 * w) ?ys ?buf r"
  have np: "NewPix ''NRGBA'' 4 w h = Inr ?buf" using fits by (rule NewPix_Inr)
  have n: "w * 4 * length ?ys \<le> length r" using data by (simp add: mult.commute)
  have rows: "decodeRows ?conv (w * 4) w ?ys ?buf r = Inr (?pix, drop (w * 4 * length ?ys) r)"
    using n by (rule decodeRows_eq)
  have b: "\<forall>y\<in>set ?ys. y < h" by simp
  have l0: "length ?buf = h * (4 * w)" by (simp add: mult.commute)
  have lc: "\<And>b. length b = w * 4 \<Longrightarrow> length (?conv b) = 4 * w" by simp
  have len: "length ?pix = 4 * w * h"
    using rowsResult_length [OF b l0 lc n] by (simp add: mult.commute)
  have alpha: "?pix ! (y * (4 * w) + 4 * x + 3) = 0xFF" if "y < h" "x < w" for y x
  proof -
    from that(1) obtain k where k: "k < length ?ys" "?ys ! k = y"
      by (rule rowOrder_nth_ex)
    have x: "4 * x + 3 < 4 * w" using that(2) by simp
    have "?pix ! (?ys ! k * (4 * w) + (4 * x + 3))
            = ?conv (take (w * 4) (drop (k * (w * 4)) r)) ! (4 * x + 3)"
      by (rule rowsResult_row [OF _ b l0 lc n k(1) x]) simp
    also have "\<dots> = 0xFF"
      using that(2) by (subst nrgbaRow_nth) simp_all
    finally show ?thesis using k(2) by (simp add: add.assoc)
  qed
  have "decodeNRGBA d r = Inr (NRGBA ?pix (4 * w) (Rect0 (int w) (int h)), drop (4 * w * h) r)"
    using False d rows np by (simp add: decodeNRGBA_def Let_def mult.commute)
  then show ?thesis using len alpha by blast
qed

subsection \<open>The run-length decoder checks every write\<close>

declare rleLoop.simps [simp del] absoluteRun.simps [simp del]

lemma storePix_valid:
  assumes "isValid stride height x y" and "length pix = stride * height"
  shows "storePix pix (y * int stride + x) c = Inr (pix[nat (y * int stride + x) := c])"
proof -
  from assms(1) obtain nx ny where x: "x = int nx" and y: "y = int ny"
    and b: "nx < stride" "ny < height"
    unfolding isValid_def by (metis nat_int nonneg_int_cases of_nat_less_iff)
  have "ny * stride + nx < height * stride" using b by (intro row_bound)
  then have "y * int stride + x < int (length pix)"
    unfolding x y assms(2) by (metis mult.commute of_nat_add of_nat_less_iff of_nat_mult)
  moreover have "0 \<le> y * int stride + x" unfolding x y by simp
  ultimately show ?thesis by (simp add: storePix_def)
qed

lemma runLog_step:
  assumes "\<exists>ws. snd res = (ev @ es) @ ws \<and> (\<forall>e\<in>set ws. validEvent stride height e)"
    and "\<forall>e\<in>set es. validEvent stride height e"
  shows "\<exists>ws. snd res = ev @ ws \<and> (\<forall>e\<in>set ws. validEvent stride height e)"
proof -
  from assms(1) obtain ws where "snd res = (ev @ es) @ ws" "\<forall>e\<in>set ws. validEvent stride height e"
    by blast
  with assms(2) have "snd res = ev @ (es @ ws) \<and> (\<forall>e\<in>set (es @ ws). validEvent stride height e)"
    by auto
  then show ?thesis by blast
qed

lemma absoluteRun_log:
  "length pix = stride * height \<Longrightarrow>
   (\<exists>ws. snd (absoluteRun bits stride height b b2 i j x y pix ev) = ev @ ws
         \<and> (\<forall>e\<in>set ws. validEvent stride height e))
   \<and> noPixPanic (stride * height) (fst (absoluteRun bits stride height b b2 i j x y pix ev))"
proof (induction bits stride height b b2 i j x y pix ev rule: absoluteRun.induct)
  case (1 bits stride height b b2 i j x y pix ev)
  show ?case
  proof (cases "i < b2 \<and> \<not> (bits \<noteq> 8 \<and> \<not> j < length b) \<and> isValid stride height x y")
    case False
    then show ?thesis
      using "1.prems" by (subst (1 2) absoluteRun.simps) (auto simp: noPixPanic_def)
  next
    case True
    let ?c = "if bits = 8 then b ! unat i else drop_bit 4 (b ! j) AND 0xF"
    let ?pix1 = "pix[nat (y * int stride + x) := ?c]"
    have s1: "storePix pix (y * int stride + x) ?c = Inr ?pix1"
      using True "1.prems" by (intro storePix_valid) auto
    have l1: "length ?pix1 = stride * height" using "1.prems" by simp
    have v1: "\<forall>e\<in>set [Stored x y]. validEvent stride height e"
      using True by (simp add: validEvent_def)
    show ?thesis
    proof (cases "bits = 4")
      case False
      have eq: "absoluteRun bits stride height b b2 i j x y pix ev
                = absoluteRun bits stride height b b2 (i + 1) j (x + 1) y ?pix1 (ev @ [Stored x y])"
        using True s1 False by (subst absoluteRun.simps) auto
      from "1.IH"(3) [OF _ _ _ s1 False l1] True
      show ?thesis unfolding eq using runLog_step [OF _ v1] by blast
    next
      case b4: True
      show ?thesis
      proof (cases "i + 1 < b2")
        case False
        have eq: "absoluteRun bits stride height b b2 i j x y pix ev
                = absoluteRun bits stride height b b2 (i + 1 + 1)
                    (if (i + 1) mod 2 \<noteq> 0 then j + 1 else j) (x + 1) y ?pix1 (ev @ [Stored x y])"
          using True s1 b4 False by (subst absoluteRun.simps) auto
        from "1.IH"(2) [OF _ _ _ s1 b4 False l1] True
        show ?thesis unfolding eq using runLog_step [OF _ v1] by blast
      next
        case i1: True
        show ?thesis
        proof (cases "isValid stride height (x + 1) y")
          case False
          have eq: "absoluteRun bits stride height b b2 i j x y pix ev
                = (Inl (FormatError ''invalid RLE data''), ev @ [Stored x y])"
            using True s1 b4 i1 False by (subst absoluteRun.simps) auto
          show ?thesis unfolding eq using v1 by (auto simp: noPixPanic_def)
        next
          case v: True
          let ?pix2 = "?pix1[nat (y * int stride + (x + 1)) := b ! j AND 0xF]"
          have s2: "storePix ?pix1 (y * int stride + (x + 1)) (b ! j AND 0xF) = Inr ?pix2"
            using v l1 by (intro storePix_valid) auto
          have l2: "length ?pix2 = stride * height" using l1 by simp
          have v2: "\<forall>e\<in>set [Stored x y, Stored (x + 1) y]. validEvent stride height e"
            using True v by (simp add: validEvent_def)
          have eq: "absoluteRun bits stride height b b2 i j x y pix ev
                = absoluteRun bits stride height b b2 (i + 1 + 1)
                    (if (i + 1) mod 2 \<noteq> 0 then j + 1 else j) (x + 1 + 1) y ?pix2
                    (ev @ [Stored x y, Stored (x + 1) y])"
            using True s1 b4 i1 v s2 by (subst absoluteRun.simps) auto
          from "1.IH"(1) [OF _ _ _ s1 b4 i1 _ s2 l2] True v
          show ?thesis unfolding eq using runLog_step [OF _ v2] by blast
        qed
      qed
    qed
  qed
qed

lemma encodedRun_log:
  "length pix = stride * height \<Longrightarrow>
   (\<exists>ws. snd (encodedRun bits stride height b2 is x y pix ev) = ev @ ws
         \<and> (\<forall>e\<in>set ws. validEvent stride height e))
   \<and> noPixPanic (stride * height) (fst (encodedRun bits stride height b2 is x y pix ev))"
proof (induction "is" arbitrary: x pix ev)
  case Nil
  then show ?case by (simp add: noPixPanic_def)
next
  case (Cons i "is")
  show ?case
  proof (cases "isValid stride height x y")
    case False
    then show ?thesis by (simp add: noPixPanic_def)
  next
    case True
    let ?c = "if bits = 8 then b2 else if i mod 2 = 0 then drop_bit 4 b2 AND 0xF else b2 AND 0xF"
    let ?pix1 = "pix[nat (y * int stride + x) := ?c]"
    have s1: "storePix pix (y * int stride + x) ?c = Inr ?pix1"
      using True Cons.prems by (rule storePix_valid)
    have l1: "length ?pix1 = stride * height" using Cons.prems by simp
    have v1: "\<forall>e\<in>set [Stored x y]. validEvent stride height e"
      using True by (simp add: validEvent_def)
    have eq: "encodedRun bits stride height b2 (i # is) x y pix ev
              = encodedRun bits stride height b2 is (x + 1) y ?pix1 (ev @ [Stored x y])"
      using True s1 by simp
    from Cons.IH [OF l1, of "x + 1" "ev @ [Stored x y]"]
    show ?thesis unfolding eq using runLog_step [OF _ v1] by blast
  qed
qed


lemma cursorLog_step:
  assumes "\<exists>es. snd res = (ev @ ws) @ es \<and> cursorLog stride height (fst res) es"
    and "\<forall>e\<in>set ws. validEvent stride height e"
  shows "\<exists>es. snd res = ev @ es \<and> cursorLog stride height (fst res) es"
proof -
  from assms(1) obtain es where es: "snd res = (ev @ ws) @ es" "cursorLog stride height (fst res) es"
    by blast
  have "cursorLog stride height (fst res) (ws @ es)"
    using es(2) assms(2) unfolding cursorLog_def validEvent_def
    by (auto split: rleEvent.splits)
  with es(1) show ?thesis by auto
qed

lemma cursorLog_end:
  assumes "res \<noteq> Inl (Panic ''Pix: index out of range'')"
    and "\<forall>e\<in>set ws. validEvent stride height e"
  shows "cursorLog stride height res ws"
  using assms unfolding cursorLog_def validEvent_def by (auto split: rleEvent.splits)

lemma cursorLog_moved: "cursorLog stride height (Inl (FormatError ''invalid RLE data'')) [Moved x y]"
  by (simp add: cursorLog_def)

lemma ReadFull_InlD: "ReadFull n r = Inl e \<Longrightarrow> e = EOF \<or> e = ErrUnexpectedEOF"
  by (auto simp: ReadFull_def split: if_splits)

lemma rleLoop_log:
  "length pix = stride * height \<Longrightarrow>
   \<exists>es. snd (rleLoop bits stride height b x y pix r ev) = ev @ es
       \<and> cursorLog stride height (fst (rleLoop bits stride height b x y pix r ev)) es"
proof (induction bits stride height b x y pix r ev rule: rleLoop.induct)
  case (1 bits stride height b x y pix r ev)
  note IH = "1.IH" and len = "1.prems"
  let ?goal = "\<lambda>res. \<exists>es. snd res = ev @ es \<and> cursorLog stride height (fst res) es"
  have fin: "?goal (Inl e, ev)" if "e \<noteq> Panic ''Pix: index out of range''" for e :: error
    using that by (simp add: cursorLog_def)
  show ?case
  proof (cases "ReadFull 2 r")
    case (Inl e)
    have eq: "rleLoop bits stride height b x y pix r ev = (Inl e, ev)"
      using Inl by (subst rleLoop.simps) simp
    show ?thesis unfolding eq using ReadFull_InlD [OF Inl] by (intro fin) auto
  next
    case (Inr p)
    then obtain rd r1 where rf: "ReadFull 2 r = Inr (rd, r1)" by (cases p) auto
    let ?b = "blit b 0 rd"
    show ?thesis
    proof (cases "?b ! 0 = 0")
      case False
      let ?run = "encodedRun bits stride height (?b ! 1) (map of_nat [0..<unat (?b ! 0)]) x y pix ev"
      obtain res ev' where run: "?run = (res, ev')" by (cases ?run)
      from encodedRun_log [OF len, of bits "?b ! 1" "map of_nat [0..<unat (?b ! 0)]" x y ev] run
      obtain ws where ws: "ev' = ev @ ws" "\<forall>e\<in>set ws. validEvent stride height e"
        and safe: "noPixPanic (stride * height) res" by auto
      show ?thesis
      proof (cases res)
        case (Inl e)
        have eq: "rleLoop bits stride height b x y pix r ev = (Inl e, ev @ ws)"
          using rf False run Inl ws(1) by (subst rleLoop.simps) simp
        from safe Inl have "Inl e \<noteq> (Inl (Panic ''Pix: index out of range'') :: error + byte list \<times> byte list)"
          by (simp add: noPixPanic_def)
        from cursorLog_end [OF this ws(2)] show ?thesis unfolding eq by simp
      next
        case (Inr q)
        then obtain x' pix' where q: "res = Inr (x', pix')" by (cases q) auto
        with safe have l': "length pix' = stride * height" by (simp add: noPixPanic_def)
        have eq: "rleLoop bits stride height b x y pix r ev
                  = rleLoop bits stride height ?b x' y pix' r1 (ev @ ws)"
          using rf False run q ws(1) by (subst rleLoop.simps) simp
        from IH(4) [OF rf refl False run [symmetric] q refl l']
        show ?thesis unfolding eq ws(1) using ws(2) by (rule cursorLog_step)
      qed
    next
      case b1: True
      consider (eol) "?b ! 1 = 0" | (eof) "?b ! 1 = 1" | (delta) "?b ! 1 = 2"
        | (abs) "?b ! 1 \<noteq> 0" "?b ! 1 \<noteq> 1" "?b ! 1 \<noteq> 2" by blast
      then show ?thesis
      proof cases
        case eol
        show ?thesis
        proof (cases "isValid stride height 0 (y - 1)")
          case True
          have eq: "rleLoop bits stride height b x y pix r ev
                    = rleLoop bits stride height ?b 0 (y - 1) pix r1 (ev @ [Moved 0 (y - 1)])"
            using rf b1 eol True by (subst rleLoop.simps) simp
          have v: "\<forall>e\<in>set [Moved 0 (y - 1)]. validEvent stride height e"
            using True by (simp add: validEvent_def)
          have nn: "\<not> \<not> isValid stride height 0 (y - 1)" using True by simp
          show ?thesis unfolding eq
            by (rule cursorLog_step [OF IH(1) [OF rf refl b1 eol nn len] v])
        next
          case False
          have eq: "rleLoop bits stride height b x y pix r ev
                    = (Inl (FormatError ''invalid RLE data''), ev @ [Moved 0 (y - 1)])"
            using rf b1 eol False by (subst rleLoop.simps) simp
          show ?thesis unfolding eq using cursorLog_moved by simp
        qed
      next
        case eof
        have eq: "rleLoop bits stride height b x y pix r ev = (Inr (pix, r1), ev)"
          using rf b1 eof by (subst rleLoop.simps) simp
        show ?thesis unfolding eq by (simp add: cursorLog_def)
      next
        case delta
        then have ne: "?b ! 1 \<noteq> 0" "?b ! 1 \<noteq> 1" by simp_all
        show ?thesis
        proof (cases "ReadFull 2 r1")
          case (Inl e)
          have eq: "rleLoop bits stride height b x y pix r ev = (Inl e, ev)"
            using rf b1 delta Inl by (subst rleLoop.simps) simp
          show ?thesis unfolding eq using ReadFull_InlD [OF Inl] by (intro fin) auto
        next
          case (Inr p2)
          then obtain rd2 r2 where rf2: "ReadFull 2 r1 = Inr (rd2, r2)" by (cases p2) auto
          let ?b2 = "blit ?b 0 rd2"
          let ?x = "x + uint (?b2 ! 0)" and ?y = "y - uint (?b2 ! 1)"
          show ?thesis
          proof (cases "isValid stride height ?x ?y")
            case True
            have eq: "rleLoop bits stride height b x y pix r ev
                      = rleLoop bits stride height ?b2 ?x ?y pix r2 (ev @ [Moved ?x ?y])"
              using rf b1 delta rf2 True by (subst rleLoop.simps) simp
            have v: "\<forall>e\<in>set [Moved ?x ?y]. validEvent stride height e"
              using True by (simp add: validEvent_def)
            have nn: "\<not> \<not> isValid stride height ?x ?y" using True by simp
            show ?thesis unfolding eq
              by (rule cursorLog_step [OF IH(2) [OF rf refl b1 ne delta rf2 refl nn len] v])
          next
            case False
            have eq: "rleLoop bits stride height b x y pix r ev
                      = (Inl (FormatError ''invalid RLE data''), ev @ [Moved ?x ?y])"
              using rf b1 delta rf2 False by (subst rleLoop.simps) simp
            show ?thesis unfolding eq using cursorLog_moved by simp
          qed
        qed
      next
        case abs
        show ?thesis
        proof (cases "256 < unat (absoluteLen bits (?b ! 1))")
          case True
          have eq: "rleLoop bits stride height b x y pix r ev
                    = (Inl (Panic ''b: slice bounds out of range''), ev)"
            using rf b1 abs True by (subst rleLoop.simps) simp
          show ?thesis unfolding eq by (intro fin) simp
        next
          case n: False
          show ?thesis
          proof (cases "ReadFull (unat (absoluteLen bits (?b ! 1))) r1")
            case (Inl e)
            have eq: "rleLoop bits stride height b x y pix r ev = (Inl e, ev)"
              using rf b1 abs n Inl by (subst rleLoop.simps) simp
            show ?thesis unfolding eq using ReadFull_InlD [OF Inl] by (intro fin) auto
          next
            case (Inr p2)
            then obtain data r2 where
              rf2: "ReadFull (unat (absoluteLen bits (?b ! 1))) r1 = Inr (data, r2)"
              by (cases p2) auto
            let ?run = "absoluteRun bits stride height (blit ?b 0 data) (?b ! 1) 0 0 x y pix ev"
            obtain res ev' where run: "?run = (res, ev')" by (cases ?run)
            from absoluteRun_log [OF len, of bits "blit ?b 0 data" "?b ! 1" 0 0 x y ev] run
            obtain ws where ws: "ev' = ev @ ws" "\<forall>e\<in>set ws. validEvent stride height e"
              and safe: "noPixPanic (stride * height) res" by auto
            show ?thesis
            proof (cases res)
              case (Inl e)
              have eq: "rleLoop bits stride height b x y pix r ev = (Inl e, ev @ ws)"
                using rf b1 abs n rf2 run Inl ws(1) by (subst rleLoop.simps) simp
              from safe Inl
              have "Inl e \<noteq> (Inl (Panic ''Pix: index out of range'') :: error + byte list \<times> byte list)"
                by (simp add: noPixPanic_def)
              from cursorLog_end [OF this ws(2)] show ?thesis unfolding eq by simp
            next
              case (Inr q)
              then obtain x' pix' where q: "res = Inr (x', pix')" by (cases q) auto
              with safe have l': "length pix' = stride * height" by (simp add: noPixPanic_def)
              have eq: "rleLoop bits stride height b x y pix r ev
                        = rleLoop bits stride height (blit ?b 0 data) x' y pix' r2 (ev @ ws)"
                using rf b1 abs n rf2 run q ws(1) by (subst rleLoop.simps) simp
              from IH(3) [OF rf refl b1 abs n rf2 refl run [symmetric] q refl l']
              show ?thesis unfolding eq ws(1) using ws(2) by (rule cursorLog_step)
            qed
          qed
        qed
      qed
    qed
  qed
qed


lemma cursorLog_Inl:
  "cursorLog stride height (Inl e :: error + 'a) es \<Longrightarrow> cursorLog stride height (Inl e :: error + 'b) es"
  by (simp add: cursorLog_def)

lemma decodeRLE_log:
  "cursorLog (nat (c_Width d)) (nat (c_Height d)) (fst (decodeRLE d r)) (snd (decodeRLE d r))"
proof (cases "assertPalette (c_ColorModel d)")
  case (Inl e)
  then have "e = Panic ''interface conversion''"
    by (auto simp: assertPalette_def split: colorModel.splits)
  with Inl show ?thesis by (simp add: decodeRLE_def cursorLog_def)
next
  case (Inr pal)
  let ?w = "nat (c_Width d)" and ?h = "nat (c_Height d)"
  show ?thesis
  proof (cases "NewPix ''Paletted'' 1 ?w ?h")
    case (Inl e)
    then have "e = Panic ''image: NewPaletted Rectangle has huge or negative dimensions''"
      by (auto simp: NewPix_def split: if_splits)
    with Inl Inr show ?thesis by (simp add: decodeRLE_def cursorLog_def)
  next
    case pix0: (Inr pix0)
    then have len: "length pix0 = ?w * ?h" by (auto simp: NewPix_def split: if_splits)
    show ?thesis
    proof (cases "c_Width d = 0 \<or> c_Height d = 0")
      case True
      with Inr pix0 show ?thesis by (auto simp: decodeRLE_def cursorLog_def)
    next
      case False
      let ?run = "rleLoop (d_bpp d) ?w ?h (replicate 256 0) 0 (c_Height d - 1) pix0 r []"
      obtain res ev where run: "?run = (res, ev)" by (cases ?run)
      from rleLoop_log [OF len, of "d_bpp d" "replicate 256 0" 0 "c_Height d - 1" r "[]"] run
      have log: "cursorLog ?w ?h res ev" by simp
      show ?thesis
      proof (cases res)
        case (Inl e)
        have "decodeRLE d r = (Inl e, ev)"
          using Inr pix0 False run Inl by (simp add: decodeRLE_def)
        with log Inl show ?thesis by (simp add: cursorLog_def)
      next
        case res: (Inr q)
        then obtain pix r' where "res = Inr (pix, r')" by (cases q) auto
        then have "decodeRLE d r
                   = (Inr (Paletted pix ?w (Rect0 (c_Width d) (c_Height d)) pal, r'), ev)"
          using Inr pix0 False run by (simp add: decodeRLE_def)
        with log res show ?thesis by (simp add: cursorLog_def)
      qed
    qed
  qed
qed

subsection \<open>Streams that end early\<close>

lemma eofToUnexpected_ne [simp]: "eofToUnexpected e \<noteq> EOF"
  by (simp add: eofToUnexpected_def)

lemma resolveCompression_not_EOF: "resolveCompression d c il b r \<noteq> Inl EOF"
  by (auto simp: resolveCompression_def Let_def split: sum.splits if_splits)

lemma resolveCompression_masks_read:
  "resolveCompression d c il b r = Inr (d', c', ml, r') \<Longrightarrow>
   c = biBitFields \<Longrightarrow> il = of_nat infoHeaderLen \<Longrightarrow> 12 \<le> length r"
  by (auto simp: resolveCompression_def Let_def ReadFull_def split: sum.splits if_splits)

lemma parseInfoHeader_masks_read:
  assumes "parseInfoHeader off il b r = Inl EOF \<or> parseInfoHeader off il b r = Inr x"
    and "readUint32 (drop 30 b) = biBitFields" and "il = of_nat infoHeaderLen"
  shows "12 \<le> length r"
proof -
  let ?rc = "resolveCompression (headerDecoder b) (readUint32 (drop 30 b)) il b r"
  have "\<exists>y. ?rc = Inr y"
  proof (cases ?rc)
    case (Inl e)
    then have "e \<noteq> EOF" using resolveCompression_not_EOF [of "headerDecoder b"] by auto
    with Inl assms(1) show ?thesis
      unfolding parseInfoHeader_def Let_def headerDecoder_def
      by (auto split: if_splits)
  qed auto
  then obtain d' c' ml r' where "?rc = Inr (d', c', ml, r')" by (metis prod_cases4)
  then show ?thesis using assms(2,3) by (rule resolveCompression_masks_read)
qed

lemma decoder_DecodeConfig_headerComplete:
  assumes "decoder_DecodeConfig r = Inl EOF \<or> decoder_DecodeConfig r = Inr x"
  shows "headerComplete r"
proof -
  have l18: "18 \<le> length r"
    using assms by (auto simp: decoder_DecodeConfig_def ReadFull_def fileHeaderLen_def
        split: if_splits)
  then have r1: "ReadFull (fileHeaderLen + 4) r = Inr (take 18 r, drop 18 r)"
    by (simp add: ReadFull_def fileHeaderLen_def)
  have f: "readUint32 (drop 14 (take 18 r)) = readUint32 (drop 14 r)"
    by (simp add: readUint32_take)
  let ?il = "readUint32 (drop 14 r)"
  from assms have sig: "take 2 r = [0x42, 0x4D]" and il: "?il = 40 \<or> ?il = 108 \<or> ?il = 124"
    unfolding decoder_DecodeConfig_def r1
    by (auto simp: Let_def f infoHeaderLen_def v4InfoHeaderLen_def v5InfoHeaderLen_def
          split: if_splits)
  define n where "n = unat ?il"
  have n: "n = 40 \<or> n = 108 \<or> n = 124" and iln: "?il = of_nat n"
    using il by (auto simp: n_def)
  have len: "14 + n \<le> length r"
  proof (rule ccontr)
    assume "\<not> 14 + n \<le> length r"
    then have "\<exists>e. ReadFull (unat ?il - 4) (drop 18 r) = Inl e"
      using n l18 by (auto simp: ReadFull_def n_def [symmetric])
    then show False
      using assms sig il unfolding decoder_DecodeConfig_def r1
      by (auto simp: Let_def f infoHeaderLen_def v4InfoHeaderLen_def v5InfoHeaderLen_def)
  qed
  have eq: "decoder_DecodeConfig r =
     parseInfoHeader (readUint32 (drop 10 r)) (of_nat n) (take (14 + n) r) (drop (14 + n) r)"
    using sig iln n len by (rule decoder_DecodeConfig_eq)
  have "12 \<le> length (drop (14 + n) r)"
    if "readUint32 (drop 30 r) = biBitFields" "?il = of_nat infoHeaderLen"
  proof -
    have "readUint32 (drop 30 (take (14 + n) r)) = biBitFields"
      using that(1) n by (auto simp: readUint32_take)
    moreover have "(of_nat n :: uint32) = of_nat infoHeaderLen" using that(2) iln by simp
    ultimately show ?thesis
      using assms unfolding eq by (intro parseInfoHeader_masks_read) auto
  qed
  then show ?thesis
    using l18 len
    by (auto simp: headerComplete_def headerLen_def fileHeaderLen_def n_def)
qed


lemma Decode_EOF_headerComplete:
  assumes "Decode r = Inl EOF"
  shows "headerComplete r"
proof (cases "decoder_DecodeConfig r")
  case (Inl e)
  with assms have "e = EOF" by (simp add: Decode_def)
  with Inl show ?thesis by (intro decoder_DecodeConfig_headerComplete) simp
next
  case (Inr x)
  then show ?thesis by (intro decoder_DecodeConfig_headerComplete) simp
qed

lemma Decode_truncated_fileHeader:
  "length r < 18 \<Longrightarrow> Decode r = Inl ErrUnexpectedEOF"
  by (simp add: Decode_def decoder_DecodeConfig_def ReadFull_def fileHeaderLen_def
      eofToUnexpected_def)

lemma Decode_truncated_infoHeader:
  assumes "18 \<le> length r" and "take 2 r = [0x42, 0x4D]"
    and "readUint32 (drop 14 r) = of_nat n" and "n = 40 \<or> n = 108 \<or> n = 124"
    and "length r < 14 + n"
  shows "Decode r = Inl ErrUnexpectedEOF"
proof -
  have r1: "ReadFull (fileHeaderLen + 4) r = Inr (take 18 r, drop 18 r)"
    using assms(1) by (simp add: ReadFull_def fileHeaderLen_def)
  have f: "readUint32 (drop 14 (take 18 r)) = of_nat n"
    using assms(3) by (simp add: readUint32_take)
  have un: "unat (of_nat n :: uint32) = n" using assms(4) by auto
  have "\<exists>e. ReadFull (n - 4) (drop 18 r) = Inl e"
    using assms(1,4,5) by (auto simp: ReadFull_def)
  then obtain e where r2: "ReadFull (n - 4) (drop 18 r) = Inl e" by blast
  then have e: "eofToUnexpected e = ErrUnexpectedEOF"
    by (auto simp: ReadFull_def eofToUnexpected_def split: if_splits)
  have ok: "\<not> ((of_nat n :: uint32) \<noteq> of_nat infoHeaderLen \<and> (of_nat n :: uint32) \<noteq> of_nat v4InfoHeaderLen
                \<and> (of_nat n :: uint32) \<noteq> of_nat v5InfoHeaderLen)"
    using assms(4) by (auto simp: infoHeaderLen_def v4InfoHeaderLen_def v5InfoHeaderLen_def)
  have "decoder_DecodeConfig r = Inl ErrUnexpectedEOF"
    unfolding decoder_DecodeConfig_def r1
    using assms(2) ok by (auto simp: Let_def f un r2 e simp del: of_nat_numeral)
  then show ?thesis by (simp add: Decode_def)
qed

lemma Decode_truncated_masks:
  assumes "54 \<le> length r" and "take 2 r = [0x42, 0x4D]"
    and "readUint32 (drop 14 r) = 40" and "0 \<le> sint (readUint32 (drop 18 r))"
    and "readUint16 (drop 26 r) = 1" and "readUint32 (drop 30 r) = 3"
    and "length r < 66"
  shows "Decode r = Inl ErrUnexpectedEOF"
proof -
  let ?b = "take 54 r"
  have f: "readUint32 (drop 18 ?b) = readUint32 (drop 18 r)"
    "readUint16 (drop 26 ?b) = 1" "readUint32 (drop 30 ?b) = 3"
    using assms(5,6) by (simp_all add: readUint32_take readUint16_take)
  have "\<exists>e. ReadFull (4 * 3) (drop 54 r) = Inl e"
    using assms(1,7) by (auto simp: ReadFull_def)
  then obtain e where rf: "ReadFull (4 * 3) (drop 54 r) = Inl e" by blast
  then have e: "eofToUnexpected e = ErrUnexpectedEOF"
    by (auto simp: ReadFull_def eofToUnexpected_def split: if_splits)
  have rc: "resolveCompression d 3 40 ?b (drop 54 r) = Inl ErrUnexpectedEOF" for d
    unfolding resolveCompression_def rf
    by (simp add: biBitFields_def infoHeaderLen_def e)
  have "parseInfoHeader (readUint32 (drop 10 r)) 40 ?b (drop 54 r) = Inl ErrUnexpectedEOF"
    unfolding parseInfoHeader_def
    using assms(4) by (simp add: Let_def f rc)
  moreover have "decoder_DecodeConfig r = parseInfoHeader (readUint32 (drop 10 r)) (of_nat 40)
       (take (14 + 40) r) (drop (14 + 40) r)"
    using assms(1,2,3) by (intro decoder_DecodeConfig_eq) simp_all
  ultimately show ?thesis by (simp add: Decode_def)
qed

lemma ReadFull_short: "length r < n \<Longrightarrow> ReadFull n r = Inl (endOfInput (length r))"
  by (simp add: ReadFull_def endOfInput_def)

lemma ReadFull_enough: "n \<le> length r \<Longrightarrow> ReadFull n r = Inr (take n r, drop n r)"
  by (simp add: ReadFull_def)

lemma decodeRows_truncated:
  "length r < n * length ys \<Longrightarrow>
   decodeRows conv n w ys pix r = Inl (endOfInput (length r mod n))"
proof (induction ys arbitrary: pix r)
  case Nil
  then show ?case by simp
next
  case (Cons y ys)
  show ?case
  proof (cases "length r < n")
    case True
    then show ?thesis by (simp add: ReadFull_short)
  next
    case False
    then have "length (drop n r) < n * length ys" using Cons.prems by simp
    from Cons.IH [OF this] False show ?thesis
      by (simp add: ReadFull_enough le_mod_geq)
  qed
qed

lemma decodeSmallPaletted_rows_truncated:
  "length r < smallRowLen (unat bits) w * length ys \<Longrightarrow>
   decodeSmallPaletted_rows bits w ys pix r
     = Inl (endOfInput (length r mod smallRowLen (unat bits) w))"
proof (induction ys arbitrary: pix r)
  case Nil
  then show ?case by simp
next
  case (Cons y ys)
  let ?n = "smallRowLen (unat bits) w"
  show ?case
  proof (cases "length r < ?n")
    case True
    then show ?thesis by (simp add: ReadFull_short)
  next
    case False
    then have "length (drop ?n r) < ?n * length ys" using Cons.prems by simp
    from Cons.IH [OF this] False show ?thesis
      by (simp add: ReadFull_enough le_mod_geq)
  qed
qed


lemma align4_pad: "align4 w = w + (if w mod 4 \<noteq> 0 then 4 - w mod 4 else 0)"
  unfolding align4_eq by presburger

lemma decodePaletted_rows_truncated:
  "length r < align4 w * length ys \<Longrightarrow>
   decodePaletted_rows w ys pix r
     = Inl (endOfInput (if length r mod align4 w < w then length r mod align4 w
                        else length r mod align4 w - w))"
proof (induction ys arbitrary: pix r)
  case Nil
  then show ?case by simp
next
  case (Cons y ys)
  let ?n = "align4 w"
  let ?p = "if w mod 4 \<noteq> 0 then 4 - w mod 4 else 0"
  have n: "?n = w + ?p" by (rule align4_pad)
  show ?case
  proof (cases "length r < ?n")
    case True
    then have m: "length r mod ?n = length r" by simp
    show ?thesis
    proof (cases "length r < w")
      case True
      then show ?thesis unfolding m by (simp add: ReadFull_short)
    next
      case False
      with \<open>length r < ?n\<close> n have p: "w mod 4 \<noteq> 0" and l: "length (drop w r) < 4 - w mod 4"
        by (auto split: if_splits)
      have "decodePaletted_rows w (y # ys) pix r = Inl (endOfInput (length (drop w r)))"
        using False p l by (simp add: ReadFull_enough ReadFull_short)
      then show ?thesis unfolding m using False by simp
    qed
  next
    case False
    then have ge: "?n \<le> length r" by simp
    then have w: "w \<le> length r" and p: "?p \<le> length (drop w r)" using n by auto
    have d: "drop ?p (drop w r) = drop ?n r" using n by (simp add: add.commute)
    have "length (drop ?n r) < ?n * length ys" using Cons.prems ge by simp
    from Cons.IH [OF this]
    have "decodePaletted_rows w (y # ys) pix r
            = Inl (endOfInput (if length (drop ?n r) mod ?n < w then length (drop ?n r) mod ?n
                               else length (drop ?n r) mod ?n - w))"
      using w p d by (auto simp: ReadFull_enough)
    moreover have "length (drop ?n r) mod ?n = length r mod ?n"
      using ge by (simp add: le_mod_geq)
    ultimately show ?thesis by simp
  qed
qed

subsection \<open>A stream and its continuations\<close>

lemma ReadFull_append:
  "ReadFull n r = Inr (b, r') \<Longrightarrow> ReadFull n (r @ t) = Inr (b, r' @ t)"
  by (auto simp: ReadFull_def split: if_splits)

lemma readUint32_append: "4 \<le> length xs \<Longrightarrow> readUint32 (xs @ ys) = readUint32 xs"
  by (auto simp: readUint32_def nth_append)

lemma resolveCompression_append:
  assumes "resolveCompression d c il b r = Inr (d', c', ml, r')"
  shows "resolveCompression d c il b (r @ t) = Inr (d', c', ml, r' @ t)"
proof (cases "c = biBitFields \<and> il = of_nat infoHeaderLen")
  case True
  then obtain m r1 where rf: "ReadFull (4 * 3) r = Inr (m, r1)"
    using assms by (auto simp: resolveCompression_def split: sum.splits)
  note rf' = ReadFull_append [OF rf, of t]
  show ?thesis
    using assms True unfolding resolveCompression_def rf rf'
    by (auto simp: Let_def split: if_splits)
next
  case False
  then show ?thesis
    using assms by (auto simp: resolveCompression_def Let_def split: if_splits)
qed

lemma configByDepth_append:
  assumes "configByDepth d off il ml colors w h r = Inr (d', r')"
  shows "configByDepth d off il ml colors w h (r @ t) = Inr (d', r' @ t)"
proof (cases "d_bpp d \<in> {1, 2, 4, 8}")
  case True
  let ?c = "if colors = 0 then push_bit (unat (d_bpp d)) 1 else colors"
  from assms True obtain pb r1 where rf: "ReadFull (unat (?c * 4)) r = Inr (pb, r1)"
    unfolding configByDepth_def Let_def by (auto split: sum.splits if_splits)
  note rf' = ReadFull_append [OF rf, of t]
  show ?thesis
    using assms True unfolding configByDepth_def Let_def rf rf'
    by (auto split: if_splits)
next
  case False
  then show ?thesis
    using assms by (auto simp: configByDepth_def Let_def split: if_splits)
qed

lemma parseInfoHeader_append:
  assumes "parseInfoHeader off il b r = Inr (d, r')"
  shows "parseInfoHeader off il b (r @ t) = Inr (d, r' @ t)"
proof -
  let ?h0 = "sint (readUint32 (drop 22 b))"
  let ?d1 = "(if ?h0 < 0 then newDecoder\<lparr>d_topDown := True\<rparr> else newDecoder)
               \<lparr>d_bpp := readUint16 (drop 28 b)\<rparr>"
  from assms obtain d2 c' ml r3 where
    rc: "resolveCompression ?d1 (readUint32 (drop 30 b)) il b r = Inr (d2, c', ml, r3)"
    unfolding parseInfoHeader_def Let_def
    by (auto split: sum.splits if_splits prod.splits)
  note rc' = resolveCompression_append [OF rc, of t]
  from assms rc have c: "c' = biRGB"
    and cd: "configByDepth d2 off il ml (readUint32 (drop 46 b)) (sint (readUint32 (drop 18 b)))
               (if ?h0 < 0 then - ?h0 else ?h0) r3 = Inr (d, r')"
    unfolding parseInfoHeader_def Let_def by (auto split: if_splits)
  note cd' = configByDepth_append [OF cd, of t]
  show ?thesis
    using assms unfolding parseInfoHeader_def Let_def rc rc'
    by (auto simp: c cd' split: if_splits)
qed

lemma decoder_DecodeConfig_append:
  assumes "decoder_DecodeConfig r = Inr (d, r')"
  shows "decoder_DecodeConfig (r @ t) = Inr (d, r' @ t)"
proof -
  from assms obtain n where n: "n = 40 \<or> n = 108 \<or> n = 124"
    and il: "readUint32 (drop 14 r) = of_nat n" and len: "14 + n \<le> length r"
    and sig: "take 2 r = [0x42, 0x4D]"
    and p: "parseInfoHeader (readUint32 (drop 10 r)) (of_nat n) (take (14 + n) r) (drop (14 + n) r)
              = Inr (d, r')"
    by (rule decoder_DecodeConfig_InrE)
  have f: "readUint32 (drop 14 (r @ t)) = of_nat n" "readUint32 (drop 10 (r @ t)) = readUint32 (drop 10 r)"
    using il len n by (auto simp: readUint32_append)
  have sig': "take 2 (r @ t) = [0x42, 0x4D]" using sig len by simp
  have len': "14 + n \<le> length (r @ t)" using len by simp
  have "decoder_DecodeConfig (r @ t) =
     parseInfoHeader (readUint32 (drop 10 (r @ t))) (of_nat n) (take (14 + n) (r @ t))
       (drop (14 + n) (r @ t))"
    using sig' f(1) n len' by (rule decoder_DecodeConfig_eq)
  also have "\<dots> = parseInfoHeader (readUint32 (drop 10 r)) (of_nat n) (take (14 + n) r)
       (drop (14 + n) r @ t)"
    using len f(2) by simp
  also have "\<dots> = Inr (d, r' @ t)" using p by (rule parseInfoHeader_append)
  finally show ?thesis .
qed

lemma Decode_truncated_rows:
  assumes cfg: "decoder_DecodeConfig r = Inr (d, r')"
    and nr: "\<not> d_rle d" and w: "c_Width d \<noteq> 0"
    and short: "length r' < rowBytes d * nat (c_Height d)"
    and full: "Decode (r @ t) = Inr (m, rest)"
  shows "Decode r = Inl (endOfInput (bytesOfBlock d (length r' mod rowBytes d)))"
proof -
  note D = decoder_DecodeConfig_InrD [OF cfg]
  have h: "c_Height d \<noteq> 0" using short by auto
  let ?w = "nat (c_Width d)" and ?h = "nat (c_Height d)"
  let ?ys = "rowOrder (d_topDown d) ?h"
  have ly: "length ?ys = ?h" by simp
  have dec: "decoder_Decode d (r' @ t) = Inr (m, rest)"
    using decoder_DecodeConfig_append [OF cfg, of t] full by (simp add: Decode_def)
  have "decoder_Decode d r' = Inl (endOfInput (bytesOfBlock d (length r' mod rowBytes d)))"
  proof -
    consider (small) "d_bpp d = 1 \<or> d_bpp d = 2 \<or> d_bpp d = 4" | (b8) "d_bpp d = 8"
      | (b16) "d_bpp d = 16" | (b24) "d_bpp d = 24" | (b32) "d_bpp d = 32"
      using D(3) by auto
    then show ?thesis
    proof cases
      case small
      then obtain pal where pal: "c_ColorModel d = PaletteModel pal" using D(3) by auto
      have ne: "d_bpp d \<noteq> 8" using small by auto
      obtain pix0 where np: "NewPix ''Paletted'' 1 ?w ?h = Inr pix0"
        using dec small nr pal ne
        by (cases "NewPix ''Paletted'' 1 ?w ?h")
           (auto simp: decoder_Decode_def decodeSmallPaletted_def assertPalette_def Let_def)
      have "length r' < smallRowLen (unat (d_bpp d)) ?w * length ?ys"
        using short small by (simp add: rowBytes_def)
      from decodeSmallPaletted_rows_truncated [OF this]
      show ?thesis
        using small nr w h pal ne np
        by (simp add: decoder_Decode_def decodeSmallPaletted_def assertPalette_def Let_def
              rowBytes_def bytesOfBlock_def)
    next
      case b8
      then obtain pal where pal: "c_ColorModel d = PaletteModel pal" using D(3) by auto
      obtain pix0 where np: "NewPix ''Paletted'' 1 ?w ?h = Inr pix0"
        using dec b8 nr pal
        by (cases "NewPix ''Paletted'' 1 ?w ?h")
           (auto simp: decoder_Decode_def decodePaletted_def assertPalette_def Let_def)
      have "length r' < align4 ?w * length ?ys"
        using short b8 by (simp add: rowBytes_def)
      from decodePaletted_rows_truncated [OF this]
      show ?thesis
        using b8 nr w h pal np
        by (auto simp: decoder_Decode_def decodePaletted_def assertPalette_def Let_def
              rowBytes_def bytesOfBlock_def)
    next
      case b16
      obtain pix0 where np: "NewPix ''RGBA'' 4 ?w ?h = Inr pix0"
        using dec b16 nr
        by (cases "NewPix ''RGBA'' 4 ?w ?h")
           (auto simp: decoder_Decode_def decodeRGB5x5_def Let_def)
      have "length r' < align4 (2 * ?w) * length ?ys"
        using short b16 by (simp add: rowBytes_def)
      from decodeRows_truncated [OF this]
      show ?thesis
        using b16 nr w h np
        by (simp add: decoder_Decode_def decodeRGB5x5_def Let_def rowBytes_def bytesOfBlock_def)
    next
      case b24
      obtain pix0 where np: "NewPix ''RGBA'' 4 ?w ?h = Inr pix0"
        using dec b24 nr
        by (cases "NewPix ''RGBA'' 4 ?w ?h")
           (auto simp: decoder_Decode_def decodeRGB_def Let_def)
      have "length r' < align4 (3 * ?w) * length ?ys"
        using short b24 by (simp add: rowBytes_def)
      from decodeRows_truncated [OF this]
      show ?thesis
        using b24 nr w h np
        by (simp add: decoder_Decode_def decodeRGB_def Let_def rowBytes_def bytesOfBlock_def)
    next
      case b32
      obtain pix0 where np: "NewPix ''NRGBA'' 4 ?w ?h = Inr pix0"
        using dec b32 nr
        by (cases "NewPix ''NRGBA'' 4 ?w ?h")
           (auto simp: decoder_Decode_def decodeNRGBA_def Let_def)
      have "length r' < ?w * 4 * length ?ys"
        using short b32 by (simp add: rowBytes_def)
      from decodeRows_truncated [OF this]
      show ?thesis
        using b32 nr w h np
        by (simp add: decoder_Decode_def decodeNRGBA_def Let_def rowBytes_def bytesOfBlock_def)
    qed
  qed
  then show ?thesis using cfg by (simp add: Decode_def)
qed

section \<open>The claims\<close>

subsection \<open>C9: the registered signature\<close>

text \<open>
  C9, as amended. The claim says that the signature constrains only the first two bytes
  and leaves bytes 7 to 10, the reserved field, free. The registered magic string is
  \<^verbatim>\<open>"BM????\x00\x00\x00\x00"\<close>: its wildcards stand at bytes 3 to 6 (the file size) and
  its last four bytes are zero bytes. A stream matches exactly when it has at least ten
  bytes, starts with \<^verbatim>\<open>BM\<close> and has four zero bytes at bytes 7 to 10, whatever bytes
  3 to 6 are.
\<close>

theorem sniff_signature:
  "sniff r \<longleftrightarrow>
     10 \<le> length r \<and> r ! 0 = 0x42 \<and> r ! 1 = 0x4D
       \<and> r ! 6 = 0 \<and> r ! 7 = 0 \<and> r ! 8 = 0 \<and> r ! 9 = 0"
proof (cases "10 \<le> length r")
  case True
  then obtain c0 c1 c2 c3 c4 c5 c6 c7 c8 c9 rest
    where r: "r = c0 # c1 # c2 # c3 # c4 # c5 # c6 # c7 # c8 # c9 # rest"
    by (rule length_ge_10E)
  show ?thesis unfolding r by (simp add: sniff_def magic_def)
next
  case False
  then show ?thesis by (simp add: sniff_def magic_def)
qed

text \<open>A stream with a file size of 0x06070809 and a zero reserved field matches.\<close>

theorem sniff_signature_witness:
  "sniff [0x42, 0x4D, 9, 8, 7, 6, 0, 0, 0, 0, 5]"
  using sniff_signature [of "[0x42, 0x4D, 9, 8, 7, 6, 0, 0, 0, 0, 5]"] by simp

text \<open>
  The claim as stated fails: a stream that starts with \<^verbatim>\<open>BM\<close> and has a reserved
  field that is not zero does not match.
\<close>

theorem sniff_reserved_counterexample:
  "take 2 [0x42, 0x4D, 0, 0, 0, 0, 1, 0, 0, 0 :: byte] = [0x42, 0x4D]
   \<and> \<not> sniff [0x42, 0x4D, 0, 0, 0, 0, 1, 0, 0, 0]"
  by (simp add: sniff_def magic_def)

subsection \<open>C6: the bit depth the encoder selects\<close>

text \<open>
  C6. Whenever \<^verbatim>\<open>Encode\<close> returns without an error, the bit-depth field of the header
  it wrote (the 16-bit field at byte 28) is: for an indexed source, 1 for a palette of
  at most 2 colours, 2 for at most 4, 4 for at most 16 and 8 otherwise; for a true-colour
  source (\<^verbatim>\<open>*image.RGBA\<close> or \<^verbatim>\<open>*image.NRGBA\<close>), 24 when \<^verbatim>\<open>Opaque\<close> reports full
  opacity and 32 otherwise. A grey image gets 8 and any other image type 24.
\<close>

theorem Encode_bit_depth:
  assumes "Encode m = Inr bs"
  shows "readUint16 (drop 28 bs) =
     (case m of
        Gray pix stride bounds \<Rightarrow> 8
      | Paletted pix stride bounds pal \<Rightarrow>
          if length pal \<le> 2 then 1 else if length pal \<le> 4 then 2
          else if length pal \<le> 16 then 4 else 8
      | RGBA pix stride bounds \<Rightarrow> if Opaque m then 24 else 32
      | NRGBA pix stride bounds \<Rightarrow> if Opaque m then 24 else 32
      | Other bounds at \<Rightarrow> 24)"
proof -
  from assms obtain h step pal opq rows where
    sel: "selectFormat m (initHeader (Dx (Rect m)) (Dy (Rect m))) (nat (Dx (Rect m)))
            (nat (Dy (Rect m))) = Inr (h, step, pal, opq)"
    and bs: "bs = headerBytes h @ (case pal of None \<Rightarrow> [] | Some p \<Rightarrow> p) @ rows"
    by (rule Encode_InrE)
  have "hdrOK h" using selectFormat_hdrOK [OF sel] by simp
  then have "readUint16 (drop 28 bs) = h_bpp h"
    unfolding bs by (rule headerBytes_fields)
  then show ?thesis
    using selectFormat_bpp [OF sel] by (cases m) (simp_all add: palettedBpp_def)
qed

text \<open>A 2 by 2 image with a palette of three colours is written at 2 bits per pixel.\<close>

theorem Encode_bit_depth_witness:
  "Encode (Paletted [0, 1, 2, 0] 2 (Rect0 2 2)
       [RGBAColor 1 2 3 0xFF, RGBAColor 4 5 6 0xFF, RGBAColor 7 8 9 0xFF])
     = Inr [66, 77, 74, 0, 0, 0, 0, 0, 0, 0, 66, 0, 0, 0, 40, 0, 0, 0, 2, 0, 0, 0, 2, 0, 0, 0,
            1, 0, 2, 0, 0, 0, 0, 0, 8, 0, 0, 0, 0, 0, 0, 0, 0, 0, 0, 0, 3, 0, 0, 0, 0, 0, 0, 0,
            3, 2, 1, 255, 6, 5, 4, 255, 9, 8, 7, 255, 128, 0, 0, 0, 16, 0, 0, 0]
   \<and> readUint16 (drop 28 [66, 77, 74, 0, 0, 0, 0, 0, 0, 0, 66, 0, 0, 0, 40, 0, 0, 0, 2, 0, 0,
            0, 2, 0, 0, 0, 1, 0, 2, 0, 0, 0, 0, 0, 8, 0, 0, 0, 0, 0, 0, 0, 0, 0, 0, 0, 3, 0, 0,
            0, 0, 0, 0, 0, 3, 2, 1, 255, 6, 5, 4, 255, 9, 8, 7, 255, 128, 0, 0, 0, 16, 0, 0, 0])
       = 2"
proof -
  have e: "Encode (Paletted [0, 1, 2, 0] 2 (Rect0 2 2)
       [RGBAColor 1 2 3 0xFF, RGBAColor 4 5 6 0xFF, RGBAColor 7 8 9 0xFF])
     = Inr [66, 77, 74, 0, 0, 0, 0, 0, 0, 0, 66, 0, 0, 0, 40, 0, 0, 0, 2, 0, 0, 0, 2, 0, 0, 0,
            1, 0, 2, 0, 0, 0, 0, 0, 8, 0, 0, 0, 0, 0, 0, 0, 0, 0, 0, 0, 3, 0, 0, 0, 0, 0, 0, 0,
            3, 2, 1, 255, 6, 5, 4, 255, 9, 8, 7, 255, 128, 0, 0, 0, 16, 0, 0, 0]"
    by code_simp
  from Encode_bit_depth [OF e] show ?thesis using e by simp
qed

subsection \<open>C7: premultiplied alpha is converted to straight alpha\<close>

text \<open>
  C7. When \<^verbatim>\<open>encodeRGBA\<close> packs a buffer that is not opaque and returns without a
  panic, the bytes written are, row by row from the last row to the first and pixel by
  pixel, the conversion the claim describes: four zero bytes when alpha is 0; blue,
  green, red copied unchanged and 0xFF when alpha is 0xFF; otherwise each channel \<open>c\<close>
  replaced by \<open>((c \<times> 0xFFFF) / alpha) >> 8\<close> (kept on 8 bits), followed by alpha. For a
  channel that is at most alpha the quotient is below 256, so that nothing is cut off;
  and the scaled division is not the naive \<open>(c \<times> 0xFF) / alpha\<close>: they differ at
  \<open>c = 253\<close>, \<open>alpha = 254\<close>.
\<close>

theorem encodeRGBA_straight_alpha:
  assumes "encodeRGBA pix dx dy stride step False = Inr out"
  shows "out = concat (map (\<lambda>y. concat (map (\<lambda>x.
                     straightAlpha (pix ! (y * stride + 4 * x)) (pix ! (y * stride + 4 * x + 1))
                       (pix ! (y * stride + 4 * x + 2)) (pix ! (y * stride + 4 * x + 3)))
                   [0..<dx]) @ replicate (step - 4 * dx) 0) (rev [0..<dy]))
         \<and> (\<forall>c a. c \<le> a \<and> 0 < a \<longrightarrow> scaledDiv c a < 256)
         \<and> scaledDiv 253 254 \<noteq> naiveDiv 253 254"
proof -
  let ?px = "rgbaPixel pix"
  let ?ys = "rev [0..<dy]"
  have rows: "encodeRows ?px dx stride ?ys (replicate step 0) = Inr out"
    using assms by (simp add: encodeRGBA_def)
  have len: "\<And>i bs. ?px i = Inr bs \<Longrightarrow> length bs = 4"
    by (simp add: rgbaPixel_InrD)
  from encodeRows_InrD [OF len rows]
  have ok: "\<forall>y\<in>set ?ys. \<forall>k<dx. \<exists>bs. ?px (y * stride + 4 * k) = Inr bs"
    and buf: "?ys \<noteq> [] \<longrightarrow> 4 * dx \<le> length (replicate step (0 :: byte))"
    by auto
  have row: "rowsOf ?px dx stride y =
       concat (map (\<lambda>x. straightAlpha (pix ! (y * stride + 4 * x)) (pix ! (y * stride + 4 * x + 1))
                       (pix ! (y * stride + 4 * x + 2)) (pix ! (y * stride + 4 * x + 3))) [0..<dx])"
    if "y \<in> set ?ys" for y
  proof -
    have "projr (?px (y * stride + 4 * k)) =
            straightAlpha (pix ! (y * stride + 4 * k)) (pix ! (y * stride + 4 * k + 1))
                       (pix ! (y * stride + 4 * k + 2)) (pix ! (y * stride + 4 * k + 3))"
      if "k < dx" for k
    proof -
      from ok \<open>y \<in> set ?ys\<close> \<open>k < dx\<close> obtain bs where "?px (y * stride + 4 * k) = Inr bs"
        by blast
      then have "y * stride + 4 * k + 3 < length pix" by (simp add: rgbaPixel_InrD)
      then show ?thesis by (simp add: rgbaPixel_straight)
    qed
    then show ?thesis
      unfolding rowsOf_def by (intro arg_cong [where f = concat] map_cong [OF refl]) simp
  qed
  have "out = concat (map (\<lambda>y. rowsOf ?px dx stride y @ drop (4 * dx) (replicate step 0)) ?ys)"
  proof (cases "dy = 0")
    case True
    with rows show ?thesis by simp
  next
    case False
    with buf have "4 * dx \<le> length (replicate step (0 :: byte))" by simp
    have "encodeRows ?px dx stride ?ys (replicate step 0) =
            Inr (concat (map (\<lambda>y. rowsOf ?px dx stride y @ drop (4 * dx) (replicate step 0)) ?ys))"
      using ok by (intro encodeRows_Inr [OF len _ \<open>4 * dx \<le> length (replicate step (0 :: byte))\<close>]) auto
    with rows show ?thesis by simp
  qed
  also have "\<dots> = concat (map (\<lambda>y. concat (map (\<lambda>x.
                     straightAlpha (pix ! (y * stride + 4 * x)) (pix ! (y * stride + 4 * x + 1))
                       (pix ! (y * stride + 4 * x + 2)) (pix ! (y * stride + 4 * x + 3)))
                   [0..<dx]) @ replicate (step - 4 * dx) 0) ?ys)"
    by (intro arg_cong [where f = concat] map_cong [OF refl]) (simp add: row)
  finally have "out = concat (map (\<lambda>y. concat (map (\<lambda>x.
                     straightAlpha (pix ! (y * stride + 4 * x)) (pix ! (y * stride + 4 * x + 1))
                       (pix ! (y * stride + 4 * x + 2)) (pix ! (y * stride + 4 * x + 3)))
                   [0..<dx]) @ replicate (step - 4 * dx) 0) ?ys)" .
  moreover have "scaledDiv 253 254 \<noteq> naiveDiv 253 254"
    by (simp add: scaledDiv_def naiveDiv_def)
  ultimately show ?thesis
    using scaledDiv_less by blast
qed

theorem encodeRGBA_straight_alpha_witness:
  "encodeRGBA [1, 1, 1, 2, 253, 253, 253, 254, 7, 8, 9, 255, 5, 5, 5, 0] 4 1 16 16 False
     = Inr [127, 127, 127, 2, 254, 254, 254, 254, 9, 8, 7, 255, 0, 0, 0, 0]
   \<and> [127, 127, 127, 2, 254, 254, 254, 254, 9, 8, 7, 255, 0, 0, 0, 0]
       = straightAlpha 1 1 1 2 @ straightAlpha 253 253 253 254 @ straightAlpha 7 8 9 255
         @ straightAlpha 5 5 5 0"
proof -
  have e: "encodeRGBA [1, 1, 1, 2, 253, 253, 253, 254, 7, 8, 9, 255, 5, 5, 5, 0] 4 1 16 16 False
     = Inr [127, 127, 127, 2, 254, 254, 254, 254, 9, 8, 7, 255, 0, 0, 0, 0]"
    by code_simp
  from encodeRGBA_straight_alpha [OF e] show ?thesis
    using e by (simp add: upt_rec)
qed

subsection \<open>C10: a grey image is written as an 8-bit indexed image\<close>



subsection \<open>C8: images of width 0 or height 0\<close>

text \<open>
  C8. Decoding: when the header (with its palette) is accepted and the width or the
  height is 0, \<^verbatim>\<open>Decode\<close> succeeds and returns an image with an empty pixel buffer, and
  the reader is where the header parse left it: no row was read. Encoding: for an image
  whose width or height is 0 (neither being negative, and the palette of an indexed
  image having 1 to 256 colours, as \<^verbatim>\<open>Encode\<close> requires of every indexed image),
  \<^verbatim>\<open>Encode\<close> succeeds and writes exactly the 54-byte header, followed by the palette when
  the source is indexed or grey, and no row.
\<close>

theorem zero_area_images:
  "(decoder_DecodeConfig r = Inr (d, r') \<and> (c_Width d = 0 \<or> c_Height d = 0) \<longrightarrow>
      (\<exists>m. Decode r = Inr (m, r') \<and>
           ((\<exists>pal. m = Paletted [] (nat (c_Width d)) (Rect0 (c_Width d) (c_Height d)) pal)
            \<or> m = RGBA [] (4 * nat (c_Width d)) (Rect0 (c_Width d) (c_Height d))
            \<or> m = NRGBA [] (4 * nat (c_Width d)) (Rect0 (c_Width d) (c_Height d)))))
   \<and> (0 \<le> Dx (Rect m) \<and> 0 \<le> Dy (Rect m) \<and> (Dx (Rect m) = 0 \<or> Dy (Rect m) = 0)
        \<and> paletteLenOK m \<longrightarrow>
      (\<exists>h. Encode m = Inr (headerBytes h @ paletteOf m) \<and> length (headerBytes h) = 54
           \<and> h_width h = word_of_int (Dx (Rect m)) \<and> h_height h = word_of_int (Dy (Rect m))))"
  using Decode_zero_area [of r d r'] Encode_zero_area [of m] by blast


text \<open>
  A header for a 24-bit image of width 0 and height 5 followed by three more bytes,
  which stay unread; and an indexed image of width 0 with two colours.
\<close>

theorem zero_area_images_witness:
  "Decode [66, 77, 54, 0, 0, 0, 0, 0, 0, 0, 54, 0, 0, 0, 40, 0, 0, 0, 0, 0, 0, 0, 5, 0, 0, 0,
           1, 0, 24, 0, 0, 0, 0, 0, 0, 0, 0, 0, 0, 0, 0, 0, 0, 0, 0, 0, 0, 0, 0, 0, 0, 0, 0, 0,
           9, 9, 9]
     = Inr (RGBA [] 0 (Rect0 0 5), [9, 9, 9])
   \<and> Encode (Paletted [] 0 (Rect0 0 5) [RGBAColor 1 2 3 0xFF, RGBAColor 4 5 6 0xFF])
     = Inr [66, 77, 62, 0, 0, 0, 0, 0, 0, 0, 62, 0, 0, 0, 40, 0, 0, 0, 0, 0, 0, 0, 5, 0, 0, 0,
            1, 0, 1, 0, 0, 0, 0, 0, 0, 0, 0, 0, 0, 0, 0, 0, 0, 0, 0, 0, 0, 0, 0, 0, 0, 0, 0, 0,
            3, 2, 1, 255, 6, 5, 4, 255]"
proof -
  let ?r = "[66, 77, 54, 0, 0, 0, 0, 0, 0, 0, 54, 0, 0, 0, 40, 0, 0, 0, 0, 0, 0, 0, 5, 0, 0, 0,
           1, 0, 24, 0, 0, 0, 0, 0, 0, 0, 0, 0, 0, 0, 0, 0, 0, 0, 0, 0, 0, 0, 0, 0, 0, 0, 0, 0,
           9, 9, 9] :: byte list"
  let ?d = "\<lparr>c_ColorModel = RGBAModel, c_Width = 0, c_Height = 5, d_bpp = 24,
         d_topDown = False, d_rgb565 = False, d_noAlpha = False, d_rle = False\<rparr>"
  let ?m = "Paletted [] 0 (Rect0 0 5) [RGBAColor 1 2 3 0xFF, RGBAColor 4 5 6 0xFF]"
  have cfg: "decoder_DecodeConfig ?r = Inr (?d, [9, 9, 9])"
    by code_simp
  have m: "0 \<le> Dx (Rect ?m) \<and> 0 \<le> Dy (Rect ?m) \<and> (Dx (Rect ?m) = 0 \<or> Dy (Rect ?m) = 0)
        \<and> paletteLenOK ?m"
    by (simp add: Dx_def Dy_def Rect0_def paletteLenOK_def)
  from zero_area_images [of ?r ?d "[9, 9, 9]" ?m] cfg m
  have "(\<exists>m. Decode ?r = Inr (m, [9, 9, 9]))
        \<and> (\<exists>h. Encode ?m = Inr (headerBytes h @ paletteOf ?m))"
    by auto
  moreover have "Decode ?r = Inr (RGBA [] 0 (Rect0 0 5), [9, 9, 9])"
    by (simp add: Decode_def cfg decoder_Decode_def decodeRGB_def NewPix_def)
  moreover have "Encode ?m = Inr [66, 77, 62, 0, 0, 0, 0, 0, 0, 0, 62, 0, 0, 0, 40, 0, 0, 0, 0, 0,
            0, 0, 5, 0, 0, 0, 1, 0, 1, 0, 0, 0, 0, 0, 0, 0, 0, 0, 0, 0, 0, 0, 0, 0, 0, 0, 0, 0, 0,
            0, 0, 0, 0, 0, 3, 2, 1, 255, 6, 5, 4, 255]"
    by code_simp
  ultimately show ?thesis by simp
qed

subsection \<open>C2: the length of the palette\<close>

text \<open>
  C2, as amended. Whenever the header of an indexed image (1, 2, 4 or 8 bits per pixel)
  is accepted, the palette has as many entries as the header declares at byte 46, or
  \<open>2 ^ bpp\<close> entries when it declares 0, and it has at most 256 entries. It is not
  bounded by \<open>2 ^ bpp\<close>: the decoder compares the declared count with nothing but the
  pixel offset.
\<close>

theorem palette_length:
  assumes "decoder_DecodeConfig r = Inr (d, r')" and "d_bpp d \<in> {1, 2, 4, 8}"
  shows "\<exists>pal. c_ColorModel d = PaletteModel pal \<and> length pal \<le> 256
           \<and> length pal = (if readUint32 (drop 46 r) = 0 then 2 ^ unat (d_bpp d)
                             else unat (readUint32 (drop 46 r)))"
proof -
  from assms(1) obtain n where n: "n = 40 \<or> n = 108 \<or> n = 124"
    and p: "parseInfoHeader (readUint32 (drop 10 r)) (of_nat n) (take (14 + n) r) (drop (14 + n) r)
           = Inr (d, r')"
    by (rule decoder_DecodeConfig_InrE)
  let ?b = "take (14 + n) r"
  from p obtain d2 ml r3 where
    rc: "resolveCompression (headerDecoder ?b) (readUint32 (drop 30 ?b)) (of_nat n) ?b (drop (14 + n) r)
           = Inr (d2, biRGB, ml, r3)"
    and cd: "configByDepth d2 (readUint32 (drop 10 r)) (of_nat n) ml (readUint32 (drop 46 ?b))
           (sint (readUint32 (drop 18 ?b))) \<bar>sint (readUint32 (drop 22 ?b))\<bar> r3 = Inr (d, r')"
    by (rule parseInfoHeader_InrE)
  have c: "readUint32 (drop 46 ?b) = readUint32 (drop 46 r)"
    using n by (auto simp: readUint32_take)
  have b: "d_bpp d2 = d_bpp d" using configByDepth_InrD(1) [OF cd] by simp
  show ?thesis
    using configByDepth_palette [OF cd] assms(2) unfolding c b by blast
qed


text \<open>A 1-bit image that declares 0 colours: the palette has 2 entries.\<close>

theorem palette_length_witness:
  "decoder_DecodeConfig
     [0x42, 0x4D, 0, 0, 0, 0, 0, 0, 0, 0, 62, 0, 0, 0, 40, 0, 0, 0, 1, 0, 0, 0, 1, 0, 0, 0,
      1, 0, 1, 0, 0, 0, 0, 0, 0, 0, 0, 0, 0, 0, 0, 0, 0, 0, 0, 0, 0, 0, 0, 0, 0, 0, 0, 0,
      1, 2, 3, 0, 4, 5, 6, 0, 0x80, 0, 0, 0]
   = Inr (\<lparr>c_ColorModel = PaletteModel [RGBAColor 3 2 1 255, RGBAColor 6 5 4 255],
           c_Width = 1, c_Height = 1, d_bpp = 1, d_topDown = False, d_rgb565 = False,
           d_noAlpha = False, d_rle = False\<rparr>, [0x80, 0, 0, 0])
   \<and> length [RGBAColor 3 2 1 255, RGBAColor 6 5 4 255] = 2 ^ unat (1 :: uint16)"
proof -
  let ?r = "[0x42, 0x4D, 0, 0, 0, 0, 0, 0, 0, 0, 62, 0, 0, 0, 40, 0, 0, 0, 1, 0, 0, 0, 1, 0, 0, 0,
      1, 0, 1, 0, 0, 0, 0, 0, 0, 0, 0, 0, 0, 0, 0, 0, 0, 0, 0, 0, 0, 0, 0, 0, 0, 0, 0, 0,
      1, 2, 3, 0, 4, 5, 6, 0, 0x80, 0, 0, 0] :: byte list"
  let ?d = "\<lparr>c_ColorModel = PaletteModel [RGBAColor 3 2 1 255, RGBAColor 6 5 4 255],
           c_Width = 1, c_Height = 1, d_bpp = 1, d_topDown = False, d_rgb565 = False,
           d_noAlpha = False, d_rle = False\<rparr>"
  have cfg: "decoder_DecodeConfig ?r = Inr (?d, [0x80, 0, 0, 0])"
    by code_simp
  have b: "d_bpp ?d \<in> {1, 2, 4, 8}" by simp
  have c: "readUint32 (drop 46 ?r) = 0" by (simp add: readUint32_def)
  from palette_length [OF cfg b] show ?thesis
    using cfg unfolding c by simp
qed

text \<open>
  The claim as stated fails: a 1-bit image may declare 3 colours. The decoder accepts
  it and builds a palette of 3 entries, more than \<open>2 ^ 1\<close>.
\<close>

theorem palette_length_counterexample:
  "readUint16 (drop 28
     [0x42, 0x4D, 0, 0, 0, 0, 0, 0, 0, 0, 66, 0, 0, 0, 40, 0, 0, 0, 1, 0, 0, 0, 1, 0, 0, 0,
      1, 0, 1, 0, 0, 0, 0, 0, 0, 0, 0, 0, 0, 0, 0, 0, 0, 0, 0, 0, 3, 0, 0, 0, 0, 0, 0, 0,
      1, 2, 3, 0, 4, 5, 6, 0, 7, 7, 7, 7, 0x80, 0, 0, 0 :: byte]) = 1
   \<and> Decode
     [0x42, 0x4D, 0, 0, 0, 0, 0, 0, 0, 0, 66, 0, 0, 0, 40, 0, 0, 0, 1, 0, 0, 0, 1, 0, 0, 0,
      1, 0, 1, 0, 0, 0, 0, 0, 0, 0, 0, 0, 0, 0, 0, 0, 0, 0, 0, 0, 3, 0, 0, 0, 0, 0, 0, 0,
      1, 2, 3, 0, 4, 5, 6, 0, 7, 7, 7, 7, 0x80, 0, 0, 0]
     = Inr (Paletted [1] 1 (Rect0 1 1)
              [RGBAColor 3 2 1 255, RGBAColor 6 5 4 255, RGBAColor 7 7 7 255], [])
   \<and> \<not> length [RGBAColor 3 2 1 255, RGBAColor 6 5 4 255, RGBAColor 7 7 7 255] \<le> 2 ^ 1"
proof -
  let ?r = "[0x42, 0x4D, 0, 0, 0, 0, 0, 0, 0, 0, 66, 0, 0, 0, 40, 0, 0, 0, 1, 0, 0, 0, 1, 0, 0, 0,
      1, 0, 1, 0, 0, 0, 0, 0, 0, 0, 0, 0, 0, 0, 0, 0, 0, 0, 0, 0, 3, 0, 0, 0, 0, 0, 0, 0,
      1, 2, 3, 0, 4, 5, 6, 0, 7, 7, 7, 7, 0x80, 0, 0, 0] :: byte list"
  let ?d = "\<lparr>c_ColorModel = PaletteModel
             [RGBAColor 3 2 1 255, RGBAColor 6 5 4 255, RGBAColor 7 7 7 255],
           c_Width = 1, c_Height = 1, d_bpp = 1, d_topDown = False, d_rgb565 = False,
           d_noAlpha = False, d_rle = False\<rparr>"
  have cfg: "decoder_DecodeConfig ?r = Inr (?d, [0x80, 0, 0, 0])"
    by code_simp
  have dec: "decoder_Decode ?d [0x80, 0, 0, 0]
     = Inr (Paletted [1] 1 (Rect0 1 1)
              [RGBAColor 3 2 1 255, RGBAColor 6 5 4 255, RGBAColor 7 7 7 255], [])"
    by (simp add: decoder_Decode_def decodeSmallPaletted_def assertPalette_def NewPix_def
          rowOrder_def ReadFull_def smallRowLen_def align4_eq blit_def)
  have "readUint16 (drop 28 ?r) = 1" by (simp add: readUint16_def)
  then show ?thesis using cfg dec by (simp add: Decode_def)
qed

text \<open>
  Beyond 256 declared colours the decoder does not return: with 257 colours (and the
  matching pixel offset 1082) the slice \<^verbatim>\<open>b[:colors*4]\<close> of the 1024-byte buffer is out
  of range, and Go panics.
\<close>

lemma DecodeConfig_palette_panic:
  "decoder_DecodeConfig
     [0x42, 0x4D, 0, 0, 0, 0, 0, 0, 0, 0, 0x3A, 4, 0, 0, 40, 0, 0, 0, 1, 0, 0, 0, 1, 0, 0, 0,
      1, 0, 8, 0, 0, 0, 0, 0, 0, 0, 0, 0, 0, 0, 0, 0, 0, 0, 0, 0, 1, 1, 0, 0, 0, 0, 0, 0]
   = Inl (Panic ''b: slice bounds out of range'')"
  by code_simp

subsection \<open>C5: default bit masks under the 40-byte header\<close>

text \<open>
  C5. A stream that starts with \<^verbatim>\<open>BM\<close> and a 40-byte DIB header with one plane, 32 bits
  per pixel, the compression \<^verbatim>\<open>BITFIELDS\<close>, a width that is not negative and the pixel
  offset 66, followed by the three masks 0x00FF0000, 0x0000FF00 and 0x000000FF and by
  at least \<open>4 * w * h\<close> bytes of pixel data, decodes without an error, whatever the sign
  of the height, and every pixel of the result has the alpha byte 0xFF, whatever the
  fourth byte stored for it is. The image is one that Go can hold: its \<open>4 * w * h\<close> bytes
  are fewer than \<open>2 ^ 63\<close>, the bound beyond which \<^verbatim>\<open>image.NewNRGBA\<close> panics before a
  pixel is read (only a stream of \<open>2 ^ 63\<close> bytes or more could hold such an image).
\<close>

theorem bitfields32_alpha_opaque:
  assumes sig: "take 2 r = [0x42, 0x4D]"
    and il: "readUint32 (drop 14 r) = 40"
    and off: "readUint32 (drop 10 r) = 66"
    and width: "0 \<le> sint (readUint32 (drop 18 r))"
    and planes: "readUint16 (drop 26 r) = 1"
    and depth: "readUint16 (drop 28 r) = 32"
    and comp: "readUint32 (drop 30 r) = 3"
    and masks: "readUint32 (drop 54 r) = 0xFF0000" "readUint32 (drop 58 r) = 0xFF00"
      "readUint32 (drop 62 r) = 0xFF"
    and w: "w = nat (sint (readUint32 (drop 18 r)))"
    and h: "h = nat \<bar>sint (readUint32 (drop 22 r))\<bar>"
    and fits: "4 * w * h < 2 ^ 63"
    and data: "66 + 4 * w * h \<le> length r"
  shows "\<exists>pix. Decode r = Inr (NRGBA pix (4 * w) (Rect0 (int w) (int h)), drop (66 + 4 * w * h) r)
           \<and> length pix = 4 * w * h
           \<and> (\<forall>y<h. \<forall>x<w. pix ! (y * (4 * w) + 4 * x + 3) = 0xFF)"
proof -
  let ?b = "take 54 r"
  let ?h0 = "sint (readUint32 (drop 22 r))"
  define d where "d = \<lparr>c_ColorModel = RGBAModel, c_Width = int w, c_Height = int h, d_bpp = 32,
     d_topDown = (?h0 < 0), d_rgb565 = False, d_noAlpha = True, d_rle = False\<rparr>"
  have l: "66 \<le> length r" using data by simp
  have f: "readUint32 (drop 18 ?b) = readUint32 (drop 18 r)"
    "readUint32 (drop 22 ?b) = readUint32 (drop 22 r)"
    "readUint16 (drop 26 ?b) = 1" "readUint16 (drop 28 ?b) = 32"
    "readUint32 (drop 30 ?b) = 3" "readUint32 (drop 46 ?b) = readUint32 (drop 46 r)"
    using planes depth comp by (simp_all add: readUint32_take readUint16_take)
  have b66: "?b @ take 12 (drop 54 r) = take 66 r"
    by (simp add: take_add [of 54 12, symmetric])
  have m: "readUint32 (drop 54 (take 66 r)) = 0xFF0000" "readUint32 (drop 58 (take 66 r)) = 0xFF00"
    "readUint32 (drop 62 (take 66 r)) = 0xFF"
    using masks by (simp_all add: readUint32_take)
  have rf: "ReadFull (4 * 3) (drop 54 r) = Inr (take 12 (drop 54 r), drop 66 r)"
    using l by (simp add: ReadFull_def)
  have rc: "resolveCompression (headerDecoder ?b) 3 40 ?b (drop 54 r)
              = Inr ((headerDecoder ?b)\<lparr>d_noAlpha := True\<rparr>, biRGB, 12, drop 66 r)"
    unfolding resolveCompression_def rf
    by (simp add: biBitFields_def infoHeaderLen_def Let_def b66 m headerDecoder_def f)
  have hd: "(headerDecoder ?b)\<lparr>d_noAlpha := True\<rparr>
              = d\<lparr>c_ColorModel := NilModel, c_Width := 0, c_Height := 0\<rparr>"
    by (simp add: headerDecoder_def f d_def newDecoder_def)
  have cd: "configByDepth ((headerDecoder ?b)\<lparr>d_noAlpha := True\<rparr>) 66 40 12 (readUint32 (drop 46 r))
              (int w) (int h) (drop 66 r) = Inr (d, drop 66 r)"
    unfolding hd by (simp add: configByDepth_def d_def fileHeaderLen_def)
  have wh: "sint (readUint32 (drop 18 r)) = int w" "\<bar>?h0\<bar> = int h"
    using width w h by simp_all
  have "parseInfoHeader 66 40 ?b (drop 54 r) = Inr (d, drop 66 r)"
    unfolding parseInfoHeader_def
    using width rc cd wh
    by (simp add: Let_def f headerDecoder_def biRGB_def abs_if split: if_splits)
  moreover have "decoder_DecodeConfig r = parseInfoHeader (readUint32 (drop 10 r)) (of_nat 40)
       (take (14 + 40) r) (drop (14 + 40) r)"
    using sig il l by (intro decoder_DecodeConfig_eq) simp_all
  ultimately have cfg: "decoder_DecodeConfig r = Inr (d, drop 66 r)"
    using off by simp
  have "w < 2 ^ 31"
    unfolding w using width sint_lt [of "readUint32 (drop 18 r)"] by simp
  then have w64: "4 * w < 2 ^ 64" by simp
  have "4 * w * h \<le> length (drop 66 r)" using data by simp
  from decodeNRGBA_noAlpha [OF _ _ _ this w64 fits, of d]
  obtain pix where "decodeNRGBA d (drop 66 r)
        = Inr (NRGBA pix (4 * w) (Rect0 (int w) (int h)), drop (4 * w * h) (drop 66 r))"
    and "length pix = 4 * w * h" and "\<forall>y<h. \<forall>x<w. pix ! (y * (4 * w) + 4 * x + 3) = 0xFF"
    by (auto simp: d_def)
  moreover have "decoder_Decode d (drop 66 r) = decodeNRGBA d (drop 66 r)"
    by (simp add: decoder_Decode_def d_def)
  ultimately show ?thesis
    using cfg by (auto simp: Decode_def add.commute)
qed


text \<open>One pixel stored as \<open>1, 2, 3, 4\<close>: it is decoded with the alpha 0xFF, not 4.\<close>

theorem bitfields32_alpha_opaque_witness:
  "Decode [0x42, 0x4D, 70, 0, 0, 0, 0, 0, 0, 0, 66, 0, 0, 0, 40, 0, 0, 0, 1, 0, 0, 0, 1, 0, 0, 0,
           1, 0, 32, 0, 3, 0, 0, 0, 4, 0, 0, 0, 0, 0, 0, 0, 0, 0, 0, 0, 0, 0, 0, 0, 0, 0, 0, 0,
           0, 0, 0xFF, 0, 0, 0xFF, 0, 0, 0xFF, 0, 0, 0, 1, 2, 3, 4]
     = Inr (NRGBA [3, 2, 1, 0xFF] 4 (Rect0 1 1), [])"
proof -
  let ?r = "[0x42, 0x4D, 70, 0, 0, 0, 0, 0, 0, 0, 66, 0, 0, 0, 40, 0, 0, 0, 1, 0, 0, 0, 1, 0, 0, 0,
           1, 0, 32, 0, 3, 0, 0, 0, 4, 0, 0, 0, 0, 0, 0, 0, 0, 0, 0, 0, 0, 0, 0, 0, 0, 0, 0, 0,
           0, 0, 0xFF, 0, 0, 0xFF, 0, 0, 0xFF, 0, 0, 0, 1, 2, 3, 4] :: byte list"
  have f: "take 2 ?r = [0x42, 0x4D]" "readUint32 (drop 14 ?r) = 40" "readUint32 (drop 10 ?r) = 66"
    "0 \<le> sint (readUint32 (drop 18 ?r))" "readUint16 (drop 26 ?r) = 1"
    "readUint16 (drop 28 ?r) = 32" "readUint32 (drop 30 ?r) = 3"
    "readUint32 (drop 54 ?r) = 0xFF0000" "readUint32 (drop 58 ?r) = 0xFF00"
    "readUint32 (drop 62 ?r) = 0xFF"
    "1 = nat (sint (readUint32 (drop 18 ?r)))" "1 = nat \<bar>sint (readUint32 (drop 22 ?r))\<bar>"
    "4 * 1 * 1 < (2 :: nat) ^ 63" "66 + 4 * 1 * 1 \<le> length ?r"
    by (simp_all add: readUint32_def readUint16_def)
  from bitfields32_alpha_opaque [OF f] obtain pix where
    d: "Decode ?r = Inr (NRGBA pix (4 * 1) (Rect0 (int 1) (int 1)), drop (66 + 4 * 1 * 1) ?r)"
    and l: "length pix = 4 * 1 * 1" and a: "\<forall>y<1. \<forall>x<1. pix ! (y * (4 * 1) + 4 * x + 3) = 0xFF"
    by blast
  have cfg: "decoder_DecodeConfig ?r =
     Inr (\<lparr>c_ColorModel = RGBAModel, c_Width = 1, c_Height = 1, d_bpp = 32, d_topDown = False,
            d_rgb565 = False, d_noAlpha = True, d_rle = False\<rparr>, [1, 2, 3, 4])"
    by code_simp
  have "Decode ?r = Inr (NRGBA [3, 2, 1, 0xFF] 4 (Rect0 1 1), [])"
    by (simp add: Decode_def cfg decoder_Decode_def decodeNRGBA_def NewPix_def rowOrder_def
          ReadFull_def nrgbaRow_def blit_def)
  with d show ?thesis by simp
qed

subsection \<open>C4: the cursor of the run-length decoder\<close>

text \<open>
  C4. \<^verbatim>\<open>decodeRLE\<close> is modelled with the events of its run: the cursor \<open>(x, y)\<close> of every
  assignment to \<^verbatim>\<open>paletted.Pix\<close>, and the cursor every end-of-line or delta opcode has
  set. For a decoder whose width and height are not negative (\<^verbatim>\<open>DecodeConfig\<close> leaves no
  other), whatever the bit depth, the palette and the stream: every pixel that is
  stored, in the absolute and in the encoded mode, is stored with the cursor inside the
  image, \<open>0 \<le> x < width\<close> and \<open>0 \<le> y < height\<close>; when an end-of-line or a delta opcode
  has set the cursor to a position that is not inside the image, \<^verbatim>\<open>decodeRLE\<close> returns
  the error \<^verbatim>\<open>FormatError("invalid RLE data")\<close>; and no assignment to \<^verbatim>\<open>paletted.Pix\<close>
  panics on its index.
\<close>

theorem decodeRLE_bounds_checked:
  assumes "0 \<le> c_Width d" and "0 \<le> c_Height d"
  shows "(\<forall>x y. Stored x y \<in> set (snd (decodeRLE d r))
            \<longrightarrow> 0 \<le> x \<and> x < c_Width d \<and> 0 \<le> y \<and> y < c_Height d)
       \<and> (\<forall>x y. Moved x y \<in> set (snd (decodeRLE d r))
              \<and> \<not> (0 \<le> x \<and> x < c_Width d \<and> 0 \<le> y \<and> y < c_Height d)
            \<longrightarrow> fst (decodeRLE d r) = Inl (FormatError ''invalid RLE data''))
       \<and> fst (decodeRLE d r) \<noteq> Inl (Panic ''Pix: index out of range'')"
proof -
  have v: "isValid (nat (c_Width d)) (nat (c_Height d)) x y
            \<longleftrightarrow> 0 \<le> x \<and> x < c_Width d \<and> 0 \<le> y \<and> y < c_Height d" for x y
    using assms by (auto simp: isValid_def)
  from decodeRLE_log [of d r] show ?thesis
    unfolding cursorLog_def v by blast
qed

text \<open>
  A 4 by 2 image of 8 bits per pixel. On the stream \<open>(0, 0) (6, 7) (0, 1)\<close> the end of
  line sets the cursor to \<open>(0, 0)\<close>, and the run of 6 pixels stores 4 of them, on the
  row 0, and ends with the error at the cursor \<open>(4, 0)\<close>: no pixel is stored on the next
  row. On a stream that starts with a delta by \<open>(1, 2)\<close> the cursor leaves the image
  through the bottom row, and nothing is stored.
\<close>

theorem decodeRLE_bounds_checked_witness:
  "decodeRLE \<lparr>c_ColorModel = PaletteModel [RGBAColor 3 2 1 255, RGBAColor 6 5 4 255],
              c_Width = 4, c_Height = 2, d_bpp = 8, d_topDown = False, d_rgb565 = False,
              d_noAlpha = False, d_rle = True\<rparr> [0, 0, 6, 7, 0, 1]
     = (Inl (FormatError ''invalid RLE data''),
        [Moved 0 0, Stored 0 0, Stored 1 0, Stored 2 0, Stored 3 0])
   \<and> snd (decodeRLE \<lparr>c_ColorModel = PaletteModel [RGBAColor 3 2 1 255, RGBAColor 6 5 4 255],
              c_Width = 4, c_Height = 2, d_bpp = 8, d_topDown = False, d_rgb565 = False,
              d_noAlpha = False, d_rle = True\<rparr> [0, 2, 1, 2, 2, 1, 0, 1])
     = [Moved 1 (- 1)]
   \<and> fst (decodeRLE \<lparr>c_ColorModel = PaletteModel [RGBAColor 3 2 1 255, RGBAColor 6 5 4 255],
              c_Width = 4, c_Height = 2, d_bpp = 8, d_topDown = False, d_rgb565 = False,
              d_noAlpha = False, d_rle = True\<rparr> [0, 2, 1, 2, 2, 1, 0, 1])
     = Inl (FormatError ''invalid RLE data'')"
proof -
  let ?d = "\<lparr>c_ColorModel = PaletteModel [RGBAColor 3 2 1 255, RGBAColor 6 5 4 255],
              c_Width = 4, c_Height = 2, d_bpp = 8, d_topDown = False, d_rgb565 = False,
              d_noAlpha = False, d_rle = True\<rparr>"
  have a: "decodeRLE ?d [0, 0, 6, 7, 0, 1]
     = (Inl (FormatError ''invalid RLE data''),
        [Moved 0 0, Stored 0 0, Stored 1 0, Stored 2 0, Stored 3 0])"
    by (simp add: decodeRLE_def assertPalette_def NewPix_def
          rleLoop.simps [where r = "[0, 0, 6, 7, 0, 1]"] rleLoop.simps [where r = "[6, 7, 0, 1]"]
          ReadFull_def blit_def isValid_def storePix_def upt_rec)
  have b: "snd (decodeRLE ?d [0, 2, 1, 2, 2, 1, 0, 1]) = [Moved 1 (- 1)]"
    by (simp add: decodeRLE_def assertPalette_def NewPix_def
          rleLoop.simps [where r = "[0, 2, 1, 2, 2, 1, 0, 1]"]
          ReadFull_def blit_def isValid_def storePix_def upt_rec)
  have "fst (decodeRLE ?d [0, 2, 1, 2, 2, 1, 0, 1]) = Inl (FormatError ''invalid RLE data'')"
    using decodeRLE_bounds_checked [of ?d "[0, 2, 1, 2, 2, 1, 0, 1]"] b by simp
  with a b show ?thesis by simp
qed

subsection \<open>C3: a stream that ends before the image does\<close>

text \<open>
  C3, as amended. The claim says that a stream that ends where more bytes are required
  never yields the generic end-of-stream error \<^verbatim>\<open>io.EOF\<close>. That holds for the header,
  not for the pixel data. \<^verbatim>\<open>Decode\<close> returns \<^verbatim>\<open>io.EOF\<close> only when the stream holds the
  complete header (the file header, the DIB header and, for \<^verbatim>\<open>BITFIELDS\<close> under the
  40-byte header, the bit masks). A stream of fewer than 18 bytes yields
  \<^verbatim>\<open>io.ErrUnexpectedEOF\<close>. So does a stream that starts with \<^verbatim>\<open>BM\<close>, declares a DIB
  header of 40, 108 or 124 bytes and ends inside this header; and so does a stream that
  starts with \<^verbatim>\<open>BM\<close> and a 40-byte DIB header with a width that is not negative, one
  plane and the compression \<^verbatim>\<open>BITFIELDS\<close>, and ends inside the bit masks or before
  them. (Without these fields the decoder returns the error of the field it rejects, not
  an end of input.) After the header the error of \<^verbatim>\<open>io.ReadFull\<close> is returned as it is,
  as for the palette. For an image that is not compressed and whose width is not 0, when
  the stream is the beginning of a stream that \<^verbatim>\<open>Decode\<close> decodes (so that the image
  can be allocated) and holds the header but not all the rows, \<^verbatim>\<open>Decode\<close> returns
  \<^verbatim>\<open>io.ErrUnexpectedEOF\<close> if the stream ends inside a block that is read for a row, and
  \<^verbatim>\<open>io.EOF\<close> if it ends exactly where such a block begins.
\<close>

theorem end_of_input:
  "(Decode r = Inl EOF \<longrightarrow> headerComplete r)
   \<and> (length r < 18 \<longrightarrow> Decode r = Inl ErrUnexpectedEOF)
   \<and> (18 \<le> length r \<and> take 2 r = [0x42, 0x4D] \<and> readUint32 (drop 14 r) = of_nat n
        \<and> (n = 40 \<or> n = 108 \<or> n = 124) \<and> length r < 14 + n
      \<longrightarrow> Decode r = Inl ErrUnexpectedEOF)
   \<and> (54 \<le> length r \<and> take 2 r = [0x42, 0x4D] \<and> readUint32 (drop 14 r) = 40
        \<and> 0 \<le> sint (readUint32 (drop 18 r)) \<and> readUint16 (drop 26 r) = 1
        \<and> readUint32 (drop 30 r) = 3 \<and> length r < 66
      \<longrightarrow> Decode r = Inl ErrUnexpectedEOF)
   \<and> (decoder_DecodeConfig r = Inr (d, r') \<and> \<not> d_rle d \<and> c_Width d \<noteq> 0
        \<and> length r' < rowBytes d * nat (c_Height d) \<and> Decode (r @ t) = Inr (m, rest)
      \<longrightarrow> Decode r = Inl (endOfInput (bytesOfBlock d (length r' mod rowBytes d))))"
proof (intro conjI impI)
  show "headerComplete r" if "Decode r = Inl EOF"
    using that by (rule Decode_EOF_headerComplete)
  show "Decode r = Inl ErrUnexpectedEOF" if "length r < 18"
    using that by (rule Decode_truncated_fileHeader)
  show "Decode r = Inl ErrUnexpectedEOF"
    if "18 \<le> length r \<and> take 2 r = [0x42, 0x4D] \<and> readUint32 (drop 14 r) = of_nat n
        \<and> (n = 40 \<or> n = 108 \<or> n = 124) \<and> length r < 14 + n"
    using that by (intro Decode_truncated_infoHeader [where n = n]) simp_all
  show "Decode r = Inl ErrUnexpectedEOF"
    if "54 \<le> length r \<and> take 2 r = [0x42, 0x4D] \<and> readUint32 (drop 14 r) = 40
        \<and> 0 \<le> sint (readUint32 (drop 18 r)) \<and> readUint16 (drop 26 r) = 1
        \<and> readUint32 (drop 30 r) = 3 \<and> length r < 66"
    using that by (intro Decode_truncated_masks) simp_all
  show "Decode r = Inl (endOfInput (bytesOfBlock d (length r' mod rowBytes d)))"
    if "decoder_DecodeConfig r = Inr (d, r') \<and> \<not> d_rle d \<and> c_Width d \<noteq> 0
        \<and> length r' < rowBytes d * nat (c_Height d) \<and> Decode (r @ t) = Inr (m, rest)"
    using that by (intro Decode_truncated_rows [where t = t and m = m and rest = rest]) simp_all
qed

text \<open>
  A stream of three bytes, and a 24-bit image of two rows of four bytes that ends after
  the first byte of its second row; with the three bytes \<open>6, 7, 8\<close> more, it decodes.
\<close>

theorem end_of_input_witness:
  "Decode [0x42, 0x4D, 1] = Inl ErrUnexpectedEOF
   \<and> Decode [0x42, 0x4D, 62, 0, 0, 0, 0, 0, 0, 0, 54, 0, 0, 0, 40, 0, 0, 0, 1, 0, 0, 0, 2, 0, 0, 0,
             1, 0, 24, 0, 0, 0, 0, 0, 8, 0, 0, 0, 0, 0, 0, 0, 0, 0, 0, 0, 0, 0, 0, 0, 0, 0, 0, 0,
             1, 2, 3, 0, 5]
       = Inl ErrUnexpectedEOF
   \<and> Decode [0x42, 0x4D, 62, 0, 0, 0, 0, 0, 0, 0, 54, 0, 0, 0, 40, 0, 0, 0, 1, 0, 0, 0, 2, 0, 0, 0,
             1, 0, 24, 0, 0, 0, 0, 0, 8, 0, 0, 0, 0, 0, 0, 0, 0, 0, 0, 0, 0, 0, 0, 0, 0, 0, 0, 0,
             1, 2, 3, 0, 5, 6, 7, 8]
       = Inr (RGBA [7, 6, 5, 255, 3, 2, 1, 255] 4 (Rect0 1 2), [])"
proof -
  let ?r = "[0x42, 0x4D, 62, 0, 0, 0, 0, 0, 0, 0, 54, 0, 0, 0, 40, 0, 0, 0, 1, 0, 0, 0, 2, 0, 0, 0,
             1, 0, 24, 0, 0, 0, 0, 0, 8, 0, 0, 0, 0, 0, 0, 0, 0, 0, 0, 0, 0, 0, 0, 0, 0, 0, 0, 0,
             1, 2, 3, 0, 5] :: byte list"
  let ?d = "\<lparr>c_ColorModel = RGBAModel, c_Width = 1, c_Height = 2, d_bpp = 24, d_topDown = False,
            d_rgb565 = False, d_noAlpha = False, d_rle = False\<rparr>"
  let ?m = "RGBA [7, 6, 5, 255, 3, 2, 1, 255] 4 (Rect0 1 2)"
  have cfg: "decoder_DecodeConfig ?r = Inr (?d, [1, 2, 3, 0, 5])"
    by code_simp
  have cfg': "decoder_DecodeConfig (?r @ [6, 7, 8]) = Inr (?d, [1, 2, 3, 0, 5, 6, 7, 8])"
    by code_simp
  have "decoder_Decode ?d [1, 2, 3, 0, 5, 6, 7, 8] = Inr (?m, [])"
    by (simp add: decoder_Decode_def decodeRGB_def rowOrder_def align4_eq ReadFull_def
          NewPix_def upt_rec rgbRow_def blit_def)
  with cfg' have full: "Decode (?r @ [6, 7, 8]) = Inr (?m, [])"
    by (simp add: Decode_def)
  have rb: "rowBytes ?d = 4" by (simp add: rowBytes_def align4_eq)
  have 1: "Decode [0x42, 0x4D, 1] = Inl ErrUnexpectedEOF"
    using end_of_input [of "[0x42, 0x4D, 1]"] by simp
  have 2: "Decode ?r = Inl ErrUnexpectedEOF"
    using end_of_input [where r = ?r and d = ?d and r' = "[1, 2, 3, 0, 5]" and t = "[6, 7, 8]"
        and m = ?m and rest = "[]"] cfg full
    by (simp add: rb bytesOfBlock_def endOfInput_def)
  from 1 2 full show ?thesis by simp
qed

text \<open>
  The claim as stated fails in the middle of the pixel data: the same image with its
  first row only. The read of the second row finds the stream at its end, and
  \<^verbatim>\<open>Decode\<close> returns \<^verbatim>\<open>io.EOF\<close>.
\<close>

theorem end_of_input_counterexample:
  "Decode [0x42, 0x4D, 62, 0, 0, 0, 0, 0, 0, 0, 54, 0, 0, 0, 40, 0, 0, 0, 1, 0, 0, 0, 2, 0, 0, 0,
           1, 0, 24, 0, 0, 0, 0, 0, 8, 0, 0, 0, 0, 0, 0, 0, 0, 0, 0, 0, 0, 0, 0, 0, 0, 0, 0, 0,
           1, 2, 3, 0]
     = Inl EOF"
proof -
  let ?r = "[0x42, 0x4D, 62, 0, 0, 0, 0, 0, 0, 0, 54, 0, 0, 0, 40, 0, 0, 0, 1, 0, 0, 0, 2, 0, 0, 0,
           1, 0, 24, 0, 0, 0, 0, 0, 8, 0, 0, 0, 0, 0, 0, 0, 0, 0, 0, 0, 0, 0, 0, 0, 0, 0, 0, 0,
           1, 2, 3, 0] :: byte list"
  let ?d = "\<lparr>c_ColorModel = RGBAModel, c_Width = 1, c_Height = 2, d_bpp = 24, d_topDown = False,
            d_rgb565 = False, d_noAlpha = False, d_rle = False\<rparr>"
  have cfg: "decoder_DecodeConfig ?r = Inr (?d, [1, 2, 3, 0])"
    by code_simp
  have "decoder_Decode ?d [1, 2, 3, 0] = Inl EOF"
    by (simp add: decoder_Decode_def decodeRGB_def rowOrder_def align4_eq ReadFull_def
          NewPix_def upt_rec)
  then show ?thesis using cfg by (simp add: Decode_def)
qed

end
